theory Spec2Isabelle
  imports Main
begin

unbundle bit_operations_syntax

section \<open>Data model\<close>

text \<open>
  The only exception the modelled code raises is Python's \<open>ValueError\<close>: from the
  constructor of \<open>Square\<close> and from \<open>Square.from_algebraic\<close>. A function that can
  raise returns \<open>error + 'a\<close>, with \<open>Inl\<close> for the exception.
\<close>

datatype error = ValueError

subsection \<open>models/piece.py\<close>

datatype piece_type = PAWN | KNIGHT | BISHOP | ROOK | QUEEN | KING

datatype color = WHITE | BLACK

definition opposite :: "color \<Rightarrow> color" where
  "opposite c = (if c = WHITE then BLACK else WHITE)"

datatype piece = Piece (piece_type: piece_type) (color: color)

subsection \<open>models/square.py\<close>

text \<open>
  A \<open>Square\<close> object holds two Python integers. The class constructor is the function
  \<open>Square\<close> below, which raises outside \<open>0..7\<close>; \<open>Sq\<close> is the bare pair of
  fields. Every square object that exists in the program came out of the constructor, so
  it satisfies \<open>valid_square\<close>.
\<close>

datatype square = Sq (file_of: int) (rank_of: int)

definition Square :: "int \<Rightarrow> int \<Rightarrow> error + square" where
  "Square f r =
     (if \<not> (0 \<le> f \<and> f \<le> 7) then Inl ValueError
      else if \<not> (0 \<le> r \<and> r \<le> 7) then Inl ValueError
      else Inr (Sq f r))"

definition valid_square :: "square \<Rightarrow> bool" where
  "valid_square sq = (0 \<le> file_of sq \<and> file_of sq \<le> 7 \<and> 0 \<le> rank_of sq \<and> rank_of sq \<le> 7)"

text \<open>
  Strings are lists of 8-bit characters, read as the code points 0 to 255. \<open>ord\<close> and
  \<open>chr\<close> are Python's built-ins on that range; \<open>lower\<close> is \<open>str.lower\<close> on one
  character of that range (the ASCII capitals, and the Latin-1 capitals 192 to 222 except
  the multiplication sign 215). \<open>str\<close> is the decimal rendering of an integer, and
  \<open>int_of_char\<close> is \<open>int\<close> on a one-character string that has already passed the
  digit test.
\<close>

definition ord :: "char \<Rightarrow> int" where
  "ord c = of_char c"

definition chr :: "int \<Rightarrow> char" where
  "chr n = char_of n"

definition lower :: "char \<Rightarrow> char" where
  "lower c =
     (let n = ord c
      in if (65 \<le> n \<and> n \<le> 90) \<or> (192 \<le> n \<and> n \<le> 222 \<and> n \<noteq> 215)
         then chr (n + 32) else c)"

fun str_nat :: "nat \<Rightarrow> string" where
  "str_nat n =
     (if n < 10 then [chr (48 + int n)]
      else str_nat (n div 10) @ [chr (48 + int (n mod 10))])"

definition str :: "int \<Rightarrow> string" where
  "str i = (if i < 0 then CHR ''-'' # str_nat (nat (- i)) else str_nat (nat i))"

definition int_of_char :: "char \<Rightarrow> int" where
  "int_of_char c = ord c - ord CHR ''0''"

definition from_algebraic :: "string \<Rightarrow> error + square" where
  "from_algebraic notation =
     (if length notation \<noteq> 2 then Inl ValueError
      else
        let file_char = lower (notation ! 0);
            rank_char = notation ! 1
        in if file_char \<notin> set ''abcdefgh'' then Inl ValueError
           else if rank_char \<notin> set ''12345678'' then Inl ValueError
           else Square (ord file_char - ord CHR ''a'') (int_of_char rank_char - 1))"

definition to_algebraic :: "square \<Rightarrow> string" where
  "to_algebraic sq = [chr (ord CHR ''a'' + file_of sq)] @ str (rank_of sq + 1)"

subsection \<open>models/board.py\<close>

text \<open>
  The grid is a list of eight rows of eight optional pieces, \<open>grid[rank][file]\<close>. Every
  index comes from a \<open>Square\<close>, hence lies in \<open>0..7\<close>, and the grid is never resized,
  so an index is never negative or out of range on a well-formed board.
\<close>

type_synonym board = "piece option list list"

definition wf_board :: "board \<Rightarrow> bool" where
  "wf_board b = (length b = 8 \<and> list_all (\<lambda>row. length row = 8) b)"

definition empty_board :: board where
  "empty_board = replicate 8 (replicate 8 None)"

definition get_piece :: "board \<Rightarrow> square \<Rightarrow> piece option" where
  "get_piece b square = b ! nat (rank_of square) ! nat (file_of square)"

definition set_piece :: "board \<Rightarrow> square \<Rightarrow> piece option \<Rightarrow> board" where
  "set_piece b square p =
     b[nat (rank_of square) := (b ! nat (rank_of square))[nat (file_of square) := p]]"

definition remove_piece :: "board \<Rightarrow> square \<Rightarrow> board" where
  "remove_piece b square =
     b[nat (rank_of square) := (b ! nat (rank_of square))[nat (file_of square) := None]]"

text \<open>
  \<open>get_all_pieces\<close> fills a dictionary keyed by square in the order of the two loops
  (rank outside, file inside). The keys are distinct, so iterating over the dictionary
  visits the entries in that order: an association list.
\<close>

definition get_all_pieces :: "board \<Rightarrow> color \<Rightarrow> (square \<times> piece) list" where
  "get_all_pieces b c =
     concat (map (\<lambda>rank. concat (map (\<lambda>file.
        (case b ! nat rank ! nat file of
           None \<Rightarrow> []
         | Some p \<Rightarrow> if color p = c then [(Sq file rank, p)] else []))
        [0..7])) [0..7])"

definition piece_order :: "piece_type list" where
  "piece_order = [ROOK, KNIGHT, BISHOP, QUEEN, KING, BISHOP, KNIGHT, ROOK]"

definition setup_standard_position :: board where
  "setup_standard_position =
     (let grid = replicate 8 (replicate 8 None);
          grid = foldl (\<lambda>g (file, pt).
                   set_piece (set_piece g (Sq file 0) (Some (Piece pt WHITE)))
                     (Sq file 7) (Some (Piece pt BLACK)))
                   grid (zip [0..7] piece_order);
          grid = foldl (\<lambda>g file.
                   set_piece (set_piece g (Sq file 1) (Some (Piece PAWN WHITE)))
                     (Sq file 6) (Some (Piece PAWN BLACK)))
                   grid [0..7]
      in grid)"

subsection \<open>models/castling_rights.py\<close>

record castling_rights =
  white_kingside :: bool
  white_queenside :: bool
  black_kingside :: bool
  black_queenside :: bool

definition revoke_for_piece ::
  "castling_rights \<Rightarrow> piece_type \<Rightarrow> color \<Rightarrow> square \<Rightarrow> castling_rights" where
  "revoke_for_piece cr pt c square =
     (if pt = KING then
        (if c = WHITE then cr\<lparr>white_kingside := False, white_queenside := False\<rparr>
         else cr\<lparr>black_kingside := False, black_queenside := False\<rparr>)
      else if pt = ROOK then
        (if c = WHITE then
           (if file_of square = 0 \<and> rank_of square = 0 then cr\<lparr>white_queenside := False\<rparr>
            else if file_of square = 7 \<and> rank_of square = 0 then cr\<lparr>white_kingside := False\<rparr>
            else cr)
         else
           (if file_of square = 0 \<and> rank_of square = 7 then cr\<lparr>black_queenside := False\<rparr>
            else if file_of square = 7 \<and> rank_of square = 7 then cr\<lparr>black_kingside := False\<rparr>
            else cr))
      else cr)"

definition revoke_for_rook_capture :: "castling_rights \<Rightarrow> square \<Rightarrow> castling_rights" where
  "revoke_for_rook_capture cr square =
     (if file_of square = 0 \<and> rank_of square = 0 then cr\<lparr>white_queenside := False\<rparr>
      else if file_of square = 7 \<and> rank_of square = 0 then cr\<lparr>white_kingside := False\<rparr>
      else if file_of square = 0 \<and> rank_of square = 7 then cr\<lparr>black_queenside := False\<rparr>
      else if file_of square = 7 \<and> rank_of square = 7 then cr\<lparr>black_kingside := False\<rparr>
      else cr)"

subsection \<open>models/move.py\<close>

record move =
  from_square :: square
  to_square :: square
  piece :: piece
  captured_piece :: "piece option"
  promotion_piece :: "piece_type option"
  is_castling :: bool
  is_en_passant :: bool

text \<open>The constructor, with its arguments in the order of \<open>Move.__init__\<close>.\<close>

definition Move ::
  "square \<Rightarrow> square \<Rightarrow> piece \<Rightarrow> piece option \<Rightarrow> piece_type option \<Rightarrow> bool \<Rightarrow> bool \<Rightarrow> move" where
  "Move f t p cap promo castling ep =
     \<lparr>from_square = f, to_square = t, piece = p, captured_piece = cap,
      promotion_piece = promo, is_castling = castling, is_en_passant = ep\<rparr>"

subsection \<open>models/game_state.py\<close>

datatype game_mode = SINGLE_PLAYER | MULTIPLAYER

record game_state =
  board :: board
  current_player :: color
  castling_rights :: castling_rights
  en_passant_target :: "square option"
  halfmove_clock :: int
  fullmove_number :: int
  move_history :: "move list"
  position_history :: "int list"
  game_mode :: game_mode

text \<open>
  \<open>compute_position_hash\<close> calls Python's built-in \<open>hash\<close> on the tuple
  \<open>(piece_type, color)\<close> of two enum members and on an enum member \<open>Color\<close>. The
  built-in is not part of the repository (the hash of an enum member is the hash of its
  name, a string hash seeded per process), so it is a parameter \<open>hash\<close> of the model:
  any function from the hashed objects to integers, fixed during a run. Python's \<open>^\<close>
  and \<open>|\<close> on unbounded integers are \<open>XOR\<close> and \<open>OR\<close> on \<open>int\<close>.
\<close>

datatype hashable = HashTuple piece_type color | HashColor color

definition compute_position_hash :: "(hashable \<Rightarrow> int) \<Rightarrow> game_state \<Rightarrow> int" where
  "compute_position_hash hash s =
     (let hash_value =
            foldl (\<lambda>hv rank. foldl (\<lambda>hv file.
               (case board s ! nat rank ! nat file of
                  None \<Rightarrow> hv
                | Some p \<Rightarrow>
                    hv XOR ((rank * 8 + file) * 31 + hash (HashTuple (piece_type p) (color p)))))
               hv [0..7]) 0 [0..7];
          hash_value = hash_value XOR (hash (HashColor (current_player s)) * 17);
          castling_hash =
            (if white_kingside (castling_rights s) then 1 else 0) OR
            (if white_queenside (castling_rights s) then 2 else 0) OR
            (if black_kingside (castling_rights s) then 4 else 0) OR
            (if black_queenside (castling_rights s) then 8 else 0);
          hash_value = hash_value XOR (castling_hash * 13);
          hash_value =
            (case en_passant_target s of
               None \<Rightarrow> hash_value
             | Some t \<Rightarrow> hash_value XOR ((rank_of t * 8 + file_of t) * 19))
      in hash_value)"

definition new_game :: "(hashable \<Rightarrow> int) \<Rightarrow> game_mode \<Rightarrow> game_state" where
  "new_game hash mode =
     (let state = \<lparr>board = setup_standard_position, current_player = WHITE,
                   castling_rights = \<lparr>white_kingside = True, white_queenside = True,
                                       black_kingside = True, black_queenside = True\<rparr>,
                   en_passant_target = None, halfmove_clock = 0, fullmove_number = 1,
                   move_history = [], position_history = [], game_mode = mode\<rparr>
      in state\<lparr>position_history := position_history state @ [compute_position_hash hash state]\<rparr>)"

section \<open>engine/check_detector.py\<close>

definition all_squares :: "square list" where
  "all_squares = concat (map (\<lambda>rank. map (\<lambda>file. Sq file rank) [0..7]) [0..7])"

text \<open>The two loops of \<open>find_king_position\<close> return the first square that holds the king.\<close>

definition find_king_position :: "game_state \<Rightarrow> color \<Rightarrow> square option" where
  "find_king_position state c =
     find (\<lambda>square.
        (case get_piece (board state) square of
           None \<Rightarrow> False
         | Some p \<Rightarrow> piece_type p = KING \<and> color p = c)) all_squares"

definition can_pawn_attack :: "square \<Rightarrow> piece \<Rightarrow> square \<Rightarrow> bool" where
  "can_pawn_attack from_sq pc target_square =
     (let direction = (if color pc = WHITE then 1 else - 1);
          rank_diff = rank_of target_square - rank_of from_sq;
          file_diff = \<bar>file_of target_square - file_of from_sq\<bar>
      in rank_diff = direction \<and> file_diff = 1)"

definition can_knight_attack :: "square \<Rightarrow> square \<Rightarrow> bool" where
  "can_knight_attack from_sq target_square =
     (let file_diff = \<bar>file_of target_square - file_of from_sq\<bar>;
          rank_diff = \<bar>rank_of target_square - rank_of from_sq\<bar>
      in (file_diff = 2 \<and> rank_diff = 1) \<or> (file_diff = 1 \<and> rank_diff = 2))"

definition can_king_attack :: "square \<Rightarrow> square \<Rightarrow> bool" where
  "can_king_attack from_sq target_square =
     (let file_diff = \<bar>file_of target_square - file_of from_sq\<bar>;
          rank_diff = \<bar>rank_of target_square - rank_of from_sq\<bar>
      in file_diff \<le> 1 \<and> rank_diff \<le> 1 \<and> (file_diff \<noteq> 0 \<or> rank_diff \<noteq> 0))"

text \<open>
  The loop of \<open>_is_path_clear\<close>. The steps are fixed before the loop; on entering the
  \<open>k\<close>-th test of the loop condition (\<open>k\<close> counted from 1) the current square is the
  origin plus \<open>k\<close> steps, which is what the two running variables of the source hold. The
  \<open>Square\<close> built in the body raises once the walk leaves the board.
\<close>

definition step_of :: "int \<Rightarrow> int" where
  "step_of d = (if d = 0 then 0 else if d > 0 then 1 else - 1)"

function path_clear_loop :: "board \<Rightarrow> square \<Rightarrow> square \<Rightarrow> int \<Rightarrow> error + bool" where
  "path_clear_loop b from_sq to_sq k =
     (let file_step = step_of (file_of to_sq - file_of from_sq);
          rank_step = step_of (rank_of to_sq - rank_of from_sq);
          current_file = file_of from_sq + k * file_step;
          current_rank = rank_of from_sq + k * rank_step
      in if current_file \<noteq> file_of to_sq \<or> current_rank \<noteq> rank_of to_sq then
           (case Square current_file current_rank of
              Inl e \<Rightarrow> Inl e
            | Inr square \<Rightarrow>
                if get_piece b square \<noteq> None then Inr False
                else path_clear_loop b from_sq to_sq (k + 1))
         else Inr True)"
  by pat_completeness auto
termination
proof (relation "measure (\<lambda>(b, from_sq, to_sq, k).
     (let file_step = step_of (file_of to_sq - file_of from_sq);
          rank_step = step_of (rank_of to_sq - rank_of from_sq);
          current_file = file_of from_sq + k * file_step;
          current_rank = rank_of from_sq + k * rank_step
      in nat (if file_step > 0 then 8 - current_file
              else if file_step < 0 then current_file + 1
              else if rank_step > 0 then 8 - current_rank
              else current_rank + 1)))", goal_cases)
  case 1
  show ?case by simp
next
  case (2 b from_sq to_sq k file_step rank_step current_file current_rank square)
  then show ?case
    by (auto simp: Square_def step_of_def Let_def algebra_simps split: if_splits)
qed

declare path_clear_loop.simps [simp del]

definition is_path_clear :: "game_state \<Rightarrow> square \<Rightarrow> square \<Rightarrow> error + bool" where
  "is_path_clear state from_sq to_sq = path_clear_loop (board state) from_sq to_sq 1"

definition can_bishop_attack :: "game_state \<Rightarrow> square \<Rightarrow> square \<Rightarrow> error + bool" where
  "can_bishop_attack state from_sq target_square =
     (let file_diff = file_of target_square - file_of from_sq;
          rank_diff = rank_of target_square - rank_of from_sq
      in if \<bar>file_diff\<bar> \<noteq> \<bar>rank_diff\<bar> \<or> file_diff = 0 then Inr False
         else is_path_clear state from_sq target_square)"

definition can_rook_attack :: "game_state \<Rightarrow> square \<Rightarrow> square \<Rightarrow> error + bool" where
  "can_rook_attack state from_sq target_square =
     (let file_diff = file_of target_square - file_of from_sq;
          rank_diff = rank_of target_square - rank_of from_sq
      in if \<not> ((file_diff = 0 \<and> rank_diff \<noteq> 0) \<or> (file_diff \<noteq> 0 \<and> rank_diff = 0)) then Inr False
         else is_path_clear state from_sq target_square)"

text \<open>Python's \<open>or\<close> evaluates its right operand only when the left one is false.\<close>

definition can_queen_attack :: "game_state \<Rightarrow> square \<Rightarrow> square \<Rightarrow> error + bool" where
  "can_queen_attack state from_sq target_square =
     (case can_bishop_attack state from_sq target_square of
        Inl e \<Rightarrow> Inl e
      | Inr True \<Rightarrow> Inr True
      | Inr False \<Rightarrow> can_rook_attack state from_sq target_square)"

definition can_piece_attack_square ::
  "game_state \<Rightarrow> square \<Rightarrow> piece \<Rightarrow> square \<Rightarrow> error + bool" where
  "can_piece_attack_square state from_sq pc target_square =
     (if piece_type pc = PAWN then Inr (can_pawn_attack from_sq pc target_square)
      else if piece_type pc = KNIGHT then Inr (can_knight_attack from_sq target_square)
      else if piece_type pc = BISHOP then can_bishop_attack state from_sq target_square
      else if piece_type pc = ROOK then can_rook_attack state from_sq target_square
      else if piece_type pc = QUEEN then can_queen_attack state from_sq target_square
      else if piece_type pc = KING then Inr (can_king_attack from_sq target_square)
      else Inr False)"

text \<open>The loop of \<open>is_square_attacked\<close> over the pieces of the attacking colour.\<close>

fun attacked_by_any :: "game_state \<Rightarrow> (square \<times> piece) list \<Rightarrow> square \<Rightarrow> error + bool" where
  "attacked_by_any state [] square = Inr False"
| "attacked_by_any state ((piece_square, pc) # pieces) square =
     (case can_piece_attack_square state piece_square pc square of
        Inl e \<Rightarrow> Inl e
      | Inr True \<Rightarrow> Inr True
      | Inr False \<Rightarrow> attacked_by_any state pieces square)"

definition is_square_attacked :: "game_state \<Rightarrow> square \<Rightarrow> color \<Rightarrow> error + bool" where
  "is_square_attacked state square by_color =
     attacked_by_any state (get_all_pieces (board state) by_color) square"

definition is_check :: "game_state \<Rightarrow> color \<Rightarrow> error + bool" where
  "is_check state c =
     (case find_king_position state c of
        None \<Rightarrow> Inr False
      | Some king_square \<Rightarrow> is_square_attacked state king_square (opposite c))"

section \<open>engine/move_generator.py\<close>

text \<open>
  The generator builds squares only from coordinates that a bounds test just before, or
  the start rank of a pawn, keeps within \<open>0..7\<close> (the origin square being a square of
  the board), so the constructor cannot raise there and the model writes \<open>Sq\<close>.
\<close>

definition promotion_types :: "piece_type list" where
  "promotion_types = [QUEEN, ROOK, BISHOP, KNIGHT]"

definition generate_pawn_moves :: "game_state \<Rightarrow> square \<Rightarrow> piece \<Rightarrow> move list" where
  "generate_pawn_moves state square pc =
     (let direction = (if color pc = WHITE then 1 else - 1);
          start_rank = (if color pc = WHITE then 1 else 6);
          forward_rank = rank_of square + direction;
          moves =
            (if 0 \<le> forward_rank \<and> forward_rank \<le> 7 then
               (let forward_square = Sq (file_of square) forward_rank
                in if get_piece (board state) forward_square = None then
                     (if rank_of forward_square = 7 \<or> rank_of forward_square = 0 then
                        map (\<lambda>promo_type. Move square forward_square pc None (Some promo_type) False False)
                          promotion_types
                      else
                        Move square forward_square pc None None False False #
                        (if rank_of square = start_rank then
                           (let two_forward_square = Sq (file_of square) (rank_of square + 2 * direction)
                            in if get_piece (board state) two_forward_square = None
                               then [Move square two_forward_square pc None None False False]
                               else [])
                         else []))
                   else [])
             else [])
      in moves @
         concat (map (\<lambda>file_offset.
           (let capture_file = file_of square + file_offset;
                capture_rank = rank_of square + direction
            in if 0 \<le> capture_file \<and> capture_file \<le> 7 \<and> 0 \<le> capture_rank \<and> capture_rank \<le> 7 then
                 (let capture_square = Sq capture_file capture_rank;
                      target_piece = get_piece (board state) capture_square
                  in if target_piece \<noteq> None \<and> map_option color target_piece \<noteq> Some (color pc) then
                       (if rank_of capture_square = 7 \<or> rank_of capture_square = 0 then
                          map (\<lambda>promo_type.
                                 Move square capture_square pc target_piece (Some promo_type) False False)
                            promotion_types
                        else [Move square capture_square pc target_piece None False False])
                     else if en_passant_target state \<noteq> None
                             \<and> Some capture_square = en_passant_target state then
                       (let captured_pawn_square = Sq (file_of capture_square) (rank_of square);
                            captured_pawn = get_piece (board state) captured_pawn_square
                        in [Move square capture_square pc captured_pawn None False True])
                     else [])
               else []))
           [- 1, 1]))"

text \<open>
  The knight and the king try a fixed list of offsets: a target on the board that is empty
  or holds an enemy piece gives a move, with the target's content as the captured piece.
\<close>

definition offset_moves ::
  "game_state \<Rightarrow> square \<Rightarrow> piece \<Rightarrow> (int \<times> int) list \<Rightarrow> move list" where
  "offset_moves state square pc offsets =
     concat (map (\<lambda>(file_offset, rank_offset).
       (let target_file = file_of square + file_offset;
            target_rank = rank_of square + rank_offset
        in if 0 \<le> target_file \<and> target_file \<le> 7 \<and> 0 \<le> target_rank \<and> target_rank \<le> 7 then
             (let target_square = Sq target_file target_rank;
                  target_piece = get_piece (board state) target_square
              in if target_piece = None \<or> map_option color target_piece \<noteq> Some (color pc)
                 then [Move square target_square pc target_piece None False False]
                 else [])
           else []))
       offsets)"

definition knight_offsets :: "(int \<times> int) list" where
  "knight_offsets = [(2, 1), (2, - 1), (- 2, 1), (- 2, - 1), (1, 2), (1, - 2), (- 1, 2), (- 1, - 2)]"

definition generate_knight_moves :: "game_state \<Rightarrow> square \<Rightarrow> piece \<Rightarrow> move list" where
  "generate_knight_moves state square pc = offset_moves state square pc knight_offsets"

text \<open>
  The \<open>while True\<close> loop of \<open>_generate_sliding_moves\<close>, with the current coordinates as
  arguments. The callers pass the eight unit directions only. For the direction
  \<open>(0, 0)\<close>, which no caller passes, the source would not leave the loop on an empty
  square; the model stops there, which is what makes the recursion total.
\<close>

function sliding_loop ::
  "board \<Rightarrow> square \<Rightarrow> piece \<Rightarrow> int \<Rightarrow> int \<Rightarrow> int \<Rightarrow> int \<Rightarrow> move list" where
  "sliding_loop b square pc file_dir rank_dir current_file current_rank =
     (if \<not> (0 \<le> current_file \<and> current_file \<le> 7 \<and> 0 \<le> current_rank \<and> current_rank \<le> 7) then []
      else
        (let target_square = Sq current_file current_rank
         in case get_piece b target_square of
              None \<Rightarrow>
                Move square target_square pc None None False False #
                (if file_dir = 0 \<and> rank_dir = 0 then []
                 else sliding_loop b square pc file_dir rank_dir
                        (current_file + file_dir) (current_rank + rank_dir))
            | Some target_piece \<Rightarrow>
                if color target_piece \<noteq> color pc
                then [Move square target_square pc (Some target_piece) None False False]
                else []))"
  by pat_completeness auto
termination
  by (relation "measure (\<lambda>(b, square, pc, file_dir, rank_dir, current_file, current_rank).
        nat (if file_dir > 0 then 8 - current_file
             else if file_dir < 0 then current_file + 1
             else if rank_dir > 0 then 8 - current_rank
             else current_rank + 1))") auto

declare sliding_loop.simps [simp del]

definition generate_sliding_moves ::
  "game_state \<Rightarrow> square \<Rightarrow> piece \<Rightarrow> int \<Rightarrow> int \<Rightarrow> move list" where
  "generate_sliding_moves state square pc file_dir rank_dir =
     sliding_loop (board state) square pc file_dir rank_dir
       (file_of square + file_dir) (rank_of square + rank_dir)"

definition generate_bishop_moves :: "game_state \<Rightarrow> square \<Rightarrow> piece \<Rightarrow> move list" where
  "generate_bishop_moves state square pc =
     concat (map (\<lambda>(file_dir, rank_dir). generate_sliding_moves state square pc file_dir rank_dir)
       [(1, 1), (1, - 1), (- 1, 1), (- 1, - 1)])"

definition generate_rook_moves :: "game_state \<Rightarrow> square \<Rightarrow> piece \<Rightarrow> move list" where
  "generate_rook_moves state square pc =
     concat (map (\<lambda>(file_dir, rank_dir). generate_sliding_moves state square pc file_dir rank_dir)
       [(1, 0), (- 1, 0), (0, 1), (0, - 1)])"

definition generate_queen_moves :: "game_state \<Rightarrow> square \<Rightarrow> piece \<Rightarrow> move list" where
  "generate_queen_moves state square pc =
     concat (map (\<lambda>(file_dir, rank_dir). generate_sliding_moves state square pc file_dir rank_dir)
       [(1, 0), (- 1, 0), (0, 1), (0, - 1), (1, 1), (1, - 1), (- 1, 1), (- 1, - 1)])"

definition is_rook_of :: "piece option \<Rightarrow> color \<Rightarrow> bool" where
  "is_rook_of rook c = (case rook of None \<Rightarrow> False | Some r \<Rightarrow> piece_type r = ROOK \<and> color r = c)"

definition generate_castling_moves :: "game_state \<Rightarrow> square \<Rightarrow> piece \<Rightarrow> move list" where
  "generate_castling_moves state square pc =
     (if color pc = WHITE then
        (let king_start_square = Sq 4 0
         in (if white_kingside (castling_rights state) \<and> square = king_start_square then
               (if get_piece (board state) (Sq 5 0) = None \<and> get_piece (board state) (Sq 6 0) = None then
                  (if is_rook_of (get_piece (board state) (Sq 7 0)) WHITE
                   then [Move square (Sq 6 0) pc None None True False] else [])
                else [])
             else []) @
            (if white_queenside (castling_rights state) \<and> square = king_start_square then
               (if get_piece (board state) (Sq 1 0) = None \<and> get_piece (board state) (Sq 2 0) = None
                   \<and> get_piece (board state) (Sq 3 0) = None then
                  (if is_rook_of (get_piece (board state) (Sq 0 0)) WHITE
                   then [Move square (Sq 2 0) pc None None True False] else [])
                else [])
             else []))
      else
        (let king_start_square = Sq 4 7
         in (if black_kingside (castling_rights state) \<and> square = king_start_square then
               (if get_piece (board state) (Sq 5 7) = None \<and> get_piece (board state) (Sq 6 7) = None then
                  (if is_rook_of (get_piece (board state) (Sq 7 7)) BLACK
                   then [Move square (Sq 6 7) pc None None True False] else [])
                else [])
             else []) @
            (if black_queenside (castling_rights state) \<and> square = king_start_square then
               (if get_piece (board state) (Sq 1 7) = None \<and> get_piece (board state) (Sq 2 7) = None
                   \<and> get_piece (board state) (Sq 3 7) = None then
                  (if is_rook_of (get_piece (board state) (Sq 0 7)) BLACK
                   then [Move square (Sq 2 7) pc None None True False] else [])
                else [])
             else [])))"

definition king_directions :: "(int \<times> int) list" where
  "king_directions = [(1, 0), (- 1, 0), (0, 1), (0, - 1), (1, 1), (1, - 1), (- 1, 1), (- 1, - 1)]"

definition generate_king_moves :: "game_state \<Rightarrow> square \<Rightarrow> piece \<Rightarrow> move list" where
  "generate_king_moves state square pc =
     offset_moves state square pc king_directions @ generate_castling_moves state square pc"

definition generate_piece_moves :: "game_state \<Rightarrow> square \<Rightarrow> move list" where
  "generate_piece_moves state square =
     (case get_piece (board state) square of
        None \<Rightarrow> []
      | Some pc \<Rightarrow>
          if piece_type pc = PAWN then generate_pawn_moves state square pc
          else if piece_type pc = KNIGHT then generate_knight_moves state square pc
          else if piece_type pc = BISHOP then generate_bishop_moves state square pc
          else if piece_type pc = ROOK then generate_rook_moves state square pc
          else if piece_type pc = QUEEN then generate_queen_moves state square pc
          else if piece_type pc = KING then generate_king_moves state square pc
          else [])"

definition generate_pseudo_legal_moves :: "game_state \<Rightarrow> color \<Rightarrow> move list" where
  "generate_pseudo_legal_moves state c =
     concat (map (\<lambda>(square, pc). generate_piece_moves state square)
       (get_all_pieces (board state) c))"

section \<open>engine/move_validator.py\<close>

text \<open>
  \<open>_apply_move_temporarily\<close> works on a copy of the state and changes its board only.
  The squares it builds take their coordinates from squares of the move, so the
  constructor cannot raise.
\<close>

definition apply_move_temporarily :: "game_state \<Rightarrow> move \<Rightarrow> game_state" where
  "apply_move_temporarily state m =
     (let b = remove_piece (board state) (from_square m);
          b = (if is_en_passant m
               then remove_piece b (Sq (file_of (to_square m)) (rank_of (from_square m)))
               else b);
          b = (if is_castling m then
                 (let rank = rank_of (from_square m)
                  in if file_of (to_square m) = 6 then
                       (let rook = get_piece b (Sq 7 rank)
                        in set_piece (remove_piece b (Sq 7 rank)) (Sq 5 rank) rook)
                     else
                       (let rook = get_piece b (Sq 0 rank)
                        in set_piece (remove_piece b (Sq 0 rank)) (Sq 3 rank) rook))
               else b);
          b = (case promotion_piece m of
                 Some promo \<Rightarrow> set_piece b (to_square m) (Some (Piece promo (color (piece m))))
               | None \<Rightarrow> set_piece b (to_square m) (Some (piece m)))
      in state\<lparr>board := b\<rparr>)"

definition would_leave_in_check :: "game_state \<Rightarrow> move \<Rightarrow> error + bool" where
  "would_leave_in_check state m =
     is_check (apply_move_temporarily state m) (color (piece m))"

definition validate_castling :: "game_state \<Rightarrow> move \<Rightarrow> error + bool" where
  "validate_castling state m =
     (case is_check state (color (piece m)) of
        Inl e \<Rightarrow> Inl e
      | Inr True \<Rightarrow> Inr False
      | Inr False \<Rightarrow>
          (let king_file = file_of (from_square m);
               target_file = file_of (to_square m);
               rank = rank_of (from_square m)
           in case (if target_file > king_file then Square (king_file + 1) rank
                    else Square (king_file - 1) rank) of
                Inl e \<Rightarrow> Inl e
              | Inr intermediate_square \<Rightarrow>
                  (case is_square_attacked state intermediate_square (opposite (color (piece m))) of
                     Inl e \<Rightarrow> Inl e
                   | Inr True \<Rightarrow> Inr False
                   | Inr False \<Rightarrow>
                       (case would_leave_in_check state m of
                          Inl e \<Rightarrow> Inl e
                        | Inr c \<Rightarrow> Inr (\<not> c)))))"

definition validate_en_passant :: "game_state \<Rightarrow> move \<Rightarrow> error + bool" where
  "validate_en_passant state m =
     (if en_passant_target state = None \<or> Some (to_square m) \<noteq> en_passant_target state
      then Inr False
      else (case would_leave_in_check state m of
              Inl e \<Rightarrow> Inl e
            | Inr c \<Rightarrow> Inr (\<not> c)))"

definition is_legal_move :: "game_state \<Rightarrow> move \<Rightarrow> error + bool" where
  "is_legal_move state m =
     (if is_castling m then validate_castling state m
      else if is_en_passant m then validate_en_passant state m
      else (case would_leave_in_check state m of
              Inl e \<Rightarrow> Inl e
            | Inr c \<Rightarrow> Inr (\<not> c)))"

text \<open>The loop that keeps the legal moves, in their order; an exception ends it.\<close>

fun filter_legal_moves :: "game_state \<Rightarrow> move list \<Rightarrow> error + move list" where
  "filter_legal_moves state [] = Inr []"
| "filter_legal_moves state (m # ms) =
     (case is_legal_move state m of
        Inl e \<Rightarrow> Inl e
      | Inr ok \<Rightarrow>
          (case filter_legal_moves state ms of
             Inl e \<Rightarrow> Inl e
           | Inr rest \<Rightarrow> Inr (if ok then m # rest else rest)))"

section \<open>engine/chess_engine.py\<close>

definition execute_normal_move :: "game_state \<Rightarrow> move \<Rightarrow> game_state" where
  "execute_normal_move state m =
     (case promotion_piece m of
        Some promo \<Rightarrow>
          state\<lparr>board := set_piece (board state) (to_square m) (Some (Piece promo (color (piece m))))\<rparr>
      | None \<Rightarrow> state\<lparr>board := set_piece (board state) (to_square m) (Some (piece m))\<rparr>)"

definition execute_castling :: "game_state \<Rightarrow> move \<Rightarrow> game_state" where
  "execute_castling state m =
     (let b = set_piece (board state) (to_square m) (Some (piece m));
          rank = rank_of (from_square m)
      in if file_of (to_square m) = 6 then
           (let rook = get_piece b (Sq 7 rank)
            in state\<lparr>board := set_piece (remove_piece b (Sq 7 rank)) (Sq 5 rank) rook\<rparr>)
         else
           (let rook = get_piece b (Sq 0 rank)
            in state\<lparr>board := set_piece (remove_piece b (Sq 0 rank)) (Sq 3 rank) rook\<rparr>))"

definition execute_en_passant :: "game_state \<Rightarrow> move \<Rightarrow> game_state" where
  "execute_en_passant state m =
     (let b = set_piece (board state) (to_square m) (Some (piece m));
          captured_pawn_square = Sq (file_of (to_square m)) (rank_of (from_square m))
      in state\<lparr>board := remove_piece b captured_pawn_square\<rparr>)"

definition calculate_en_passant_target :: "move \<Rightarrow> error + square option" where
  "calculate_en_passant_target m =
     (if piece_type (piece m) \<noteq> PAWN then Inr None
      else
        (let rank_diff = \<bar>rank_of (to_square m) - rank_of (from_square m)\<bar>
         in if rank_diff \<noteq> 2 then Inr None
            else (case (if color (piece m) = WHITE
                        then Square (file_of (from_square m)) (rank_of (from_square m) + 1)
                        else Square (file_of (from_square m)) (rank_of (from_square m) - 1)) of
                    Inl e \<Rightarrow> Inl e
                  | Inr sq \<Rightarrow> Inr (Some sq))))"

definition execute_move :: "(hashable \<Rightarrow> int) \<Rightarrow> game_state \<Rightarrow> move \<Rightarrow> error + game_state" where
  "execute_move hash state m =
     (let new_state = state\<lparr>board := remove_piece (board state) (from_square m)\<rparr>;
          new_state = (if is_castling m then execute_castling new_state m
                       else if is_en_passant m then execute_en_passant new_state m
                       else execute_normal_move new_state m);
          new_state = new_state\<lparr>castling_rights :=
                        revoke_for_piece (castling_rights new_state)
                          (piece_type (piece m)) (color (piece m)) (from_square m)\<rparr>;
          new_state = (case captured_piece m of
                         None \<Rightarrow> new_state
                       | Some cp \<Rightarrow>
                           if piece_type cp = ROOK
                           then new_state\<lparr>castling_rights :=
                                  revoke_for_rook_capture (castling_rights new_state) (to_square m)\<rparr>
                           else new_state)
      in case calculate_en_passant_target m of
           Inl e \<Rightarrow> Inl e
         | Inr target \<Rightarrow>
             (let new_state = new_state\<lparr>en_passant_target := target\<rparr>;
                  new_state = (if piece_type (piece m) = PAWN \<or> captured_piece m \<noteq> None
                               then new_state\<lparr>halfmove_clock := 0\<rparr>
                               else new_state\<lparr>halfmove_clock := halfmove_clock new_state + 1\<rparr>);
                  new_state = (if current_player state = BLACK
                               then new_state\<lparr>fullmove_number := fullmove_number new_state + 1\<rparr>
                               else new_state);
                  new_state = new_state\<lparr>move_history := move_history new_state @ [m]\<rparr>;
                  new_state = new_state\<lparr>current_player := opposite (current_player state)\<rparr>
              in Inr (new_state\<lparr>position_history :=
                        position_history new_state @ [compute_position_hash hash new_state]\<rparr>)))"

definition get_legal_moves :: "game_state \<Rightarrow> color \<Rightarrow> error + move list" where
  "get_legal_moves state c = filter_legal_moves state (generate_pseudo_legal_moves state c)"

definition is_checkmate :: "game_state \<Rightarrow> error + bool" where
  "is_checkmate state =
     (case is_check state (current_player state) of
        Inl e \<Rightarrow> Inl e
      | Inr False \<Rightarrow> Inr False
      | Inr True \<Rightarrow>
          (case get_legal_moves state (current_player state) of
             Inl e \<Rightarrow> Inl e
           | Inr legal_moves \<Rightarrow> Inr (length legal_moves = 0)))"

definition is_stalemate :: "game_state \<Rightarrow> error + bool" where
  "is_stalemate state =
     (case is_check state (current_player state) of
        Inl e \<Rightarrow> Inl e
      | Inr True \<Rightarrow> Inr False
      | Inr False \<Rightarrow>
          (case get_legal_moves state (current_player state) of
             Inl e \<Rightarrow> Inl e
           | Inr legal_moves \<Rightarrow> Inr (length legal_moves = 0)))"


section \<open>Auxiliary definitions for the statements\<close>

text \<open>
  The forward direction of a pawn, the local variable \<open>direction\<close> of the generator and
  of the attack test.
\<close>

definition pawn_direction :: "color \<Rightarrow> int" where
  "pawn_direction c = (if c = WHITE then 1 else - 1)"

text \<open>
  The constructor \<open>GameState(board, current_player, castling_rights)\<close> with its default
  arguments, and a board filled by successive \<open>set_piece\<close> calls on an empty board, as
  the tests of the repository build their positions.
\<close>

definition GameState :: "board \<Rightarrow> color \<Rightarrow> castling_rights \<Rightarrow> game_state" where
  "GameState b c cr =
     \<lparr>board = b, current_player = c, castling_rights = cr, en_passant_target = None,
      halfmove_clock = 0, fullmove_number = 1, move_history = [], position_history = [],
      game_mode = MULTIPLAYER\<rparr>"

definition CastlingRights :: "bool \<Rightarrow> bool \<Rightarrow> bool \<Rightarrow> bool \<Rightarrow> castling_rights" where
  "CastlingRights wk wq bk bq =
     \<lparr>white_kingside = wk, white_queenside = wq, black_kingside = bk, black_queenside = bq\<rparr>"

definition board_of :: "(square \<times> piece) list \<Rightarrow> board" where
  "board_of ps = foldl (\<lambda>b (sq, p). set_piece b sq (Some p)) empty_board ps"


text \<open>The four knight moves Nf3, Nf6, Ng1, Ng8 of \<open>test_threefold_repetition\<close>.\<close>

definition knight_sequence :: "move list" where
  "knight_sequence =
     [Move (Sq 6 0) (Sq 5 2) (Piece KNIGHT WHITE) None None False False,
      Move (Sq 6 7) (Sq 5 5) (Piece KNIGHT BLACK) None None False False,
      Move (Sq 5 2) (Sq 6 0) (Piece KNIGHT WHITE) None None False False,
      Move (Sq 5 5) (Sq 6 7) (Piece KNIGHT BLACK) None None False False]"

text \<open>The entry that \<open>get_all_pieces\<close> makes for one square.\<close>

definition pieces_on :: "board \<Rightarrow> color \<Rightarrow> square \<Rightarrow> (square \<times> piece) list" where
  "pieces_on b c sq =
     (case get_piece b sq of
        None \<Rightarrow> []
      | Some p \<Rightarrow> if color p = c then [(sq, p)] else [])"

text \<open>
  A white rook on a1 and the two kings; the square a5 empty, or occupied by a black pawn,
  or by a white knight.
\<close>

definition rook_file_state :: "piece option \<Rightarrow> game_state" where
  "rook_file_state x =
     GameState (set_piece (board_of [(Sq 0 0, Piece ROOK WHITE), (Sq 4 0, Piece KING WHITE),
                                     (Sq 4 7, Piece KING BLACK)]) (Sq 0 4) x)
       WHITE (CastlingRights False False False False)"




text \<open>
  A back-rank mate: the white king on g1 behind its pawns on f2, g2 and h2, a black rook
  on e1, White to move.
\<close>

definition back_rank_mate :: game_state where
  "back_rank_mate =
     GameState (board_of [(Sq 6 0, Piece KING WHITE), (Sq 5 1, Piece PAWN WHITE),
                          (Sq 6 1, Piece PAWN WHITE), (Sq 7 1, Piece PAWN WHITE),
                          (Sq 4 0, Piece ROOK BLACK), (Sq 4 7, Piece KING BLACK)])
       WHITE (CastlingRights False False False False)"

text \<open>
  A pin: the white king on e1, a white rook on e2 and a black rook on e8, White to move.
  The white rook may only move along the e-file.
\<close>

definition pinned_rook :: game_state where
  "pinned_rook =
     GameState (board_of [(Sq 4 0, Piece KING WHITE), (Sq 4 1, Piece ROOK WHITE),
                          (Sq 4 7, Piece ROOK BLACK), (Sq 7 7, Piece KING BLACK)])
       WHITE (CastlingRights False False False False)"

text \<open>A position without a white king: a white pawn on e2 and the black king on e8.\<close>

definition lone_pawn :: game_state where
  "lone_pawn =
     GameState (board_of [(Sq 4 1, Piece PAWN WHITE), (Sq 4 7, Piece KING BLACK)])
       WHITE (CastlingRights False False False False)"

text \<open>
  The white king on e1 with its rooks on a1 and h1 and both castling rights, the black
  king on e8 and a black rook on f8 that attacks f1.
\<close>

definition castling_position :: game_state where
  "castling_position =
     GameState (board_of [(Sq 4 0, Piece KING WHITE), (Sq 0 0, Piece ROOK WHITE),
                          (Sq 7 0, Piece ROOK WHITE), (Sq 4 7, Piece KING BLACK),
                          (Sq 5 7, Piece ROOK BLACK)])
       WHITE (CastlingRights True True False False)"

section \<open>Squares and algebraic notation\<close>

lemma lower_file_letter: "lower c \<in> set ''abcdefgh'' \<longleftrightarrow> c \<in> set ''abcdefghABCDEFGH''"
proof (cases c)
  case (Char b0 b1 b2 b3 b4 b5 b6 b7)
  show ?thesis unfolding Char
    by (cases b0; cases b1; cases b2; cases b3; cases b4; cases b5; cases b6; cases b7;
        simp add: lower_def ord_def chr_def Let_def char_of_eq_iff)
qed

lemma rank_digit:
  "c \<in> set ''12345678'' \<Longrightarrow>
     0 \<le> int_of_char c - 1 \<and> int_of_char c - 1 \<le> 7 \<and> str (int_of_char c - 1 + 1) = [c]"
  by (auto simp: int_of_char_def ord_def str_def chr_def char_of_eq_iff)

lemma file_letter:
  "c \<in> set ''abcdefgh'' \<Longrightarrow>
     0 \<le> ord c - ord CHR ''a'' \<and> ord c - ord CHR ''a'' \<le> 7
     \<and> chr (ord CHR ''a'' + (ord c - ord CHR ''a'')) = c"
  by (auto simp: ord_def chr_def char_of_eq_iff)

lemma valid_square_cases:
  "valid_square (Sq f r) \<Longrightarrow> f \<in> {0, 1, 2, 3, 4, 5, 6, 7} \<and> r \<in> {0, 1, 2, 3, 4, 5, 6, 7}"
  by (auto simp: valid_square_def)

lemma from_to_algebraic: "valid_square sq \<Longrightarrow> from_algebraic (to_algebraic sq) = Inr sq"
proof -
  assume v: "valid_square sq"
  obtain f r where sq: "sq = Sq f r" by (cases sq)
  from v have "f \<in> {0, 1, 2, 3, 4, 5, 6, 7} \<and> r \<in> {0, 1, 2, 3, 4, 5, 6, 7}"
    unfolding sq by (rule valid_square_cases)
  then show ?thesis unfolding sq
    by (elim conjE insertE emptyE;
        simp add: from_algebraic_def to_algebraic_def str_def chr_def ord_def lower_def
          Square_def int_of_char_def Let_def char_of_eq_iff)
qed

lemma from_algebraic_error:
  "from_algebraic s = Inl ValueError \<longleftrightarrow>
     (length s \<noteq> 2 \<or> s ! 0 \<notin> set ''abcdefghABCDEFGH'' \<or> s ! 1 \<notin> set ''12345678'')"
proof (cases "length s \<noteq> 2")
  case True
  then show ?thesis by (simp add: from_algebraic_def)
next
  case len: False
  show ?thesis
  proof (cases "lower (s ! 0) \<in> set ''abcdefgh'' \<and> s ! 1 \<in> set ''12345678''")
    case True
    then have "from_algebraic s =
        Inr (Sq (ord (lower (s ! 0)) - ord CHR ''a'') (int_of_char (s ! 1) - 1))"
      using len file_letter [of "lower (s ! 0)"] rank_digit [of "s ! 1"]
      by (simp add: from_algebraic_def Let_def Square_def)
    moreover have "s ! 0 \<in> set ''abcdefghABCDEFGH''"
      using True lower_file_letter [of "s ! 0"] by blast
    ultimately show ?thesis using True len by simp
  next
    case False
    then have bad: "lower (s ! 0) \<notin> set ''abcdefgh'' \<or> s ! 1 \<notin> set ''12345678''"
      by blast
    then have "from_algebraic s = Inl ValueError"
      using len by (auto simp: from_algebraic_def Let_def)
    moreover have "s ! 0 \<notin> set ''abcdefghABCDEFGH'' \<or> s ! 1 \<notin> set ''12345678''"
      using bad lower_file_letter [of "s ! 0"] by blast
    ultimately show ?thesis by simp
  qed
qed

lemma from_algebraic_result:
  assumes "from_algebraic s = Inr sq"
  shows "valid_square sq \<and> to_algebraic sq = [lower (s ! 0), s ! 1]"
proof -
  have len: "length s = 2"
    using assms by (auto simp: from_algebraic_def split: if_splits)
  have f: "lower (s ! 0) \<in> set ''abcdefgh''" and r: "s ! 1 \<in> set ''12345678''"
    using assms len by (auto simp: from_algebraic_def Let_def split: if_splits)
  have "from_algebraic s = Square (ord (lower (s ! 0)) - ord CHR ''a'') (int_of_char (s ! 1) - 1)"
    by (simp only: from_algebraic_def Let_def len f r simp_thms if_False if_True)
  then have sq: "sq = Sq (ord (lower (s ! 0)) - ord CHR ''a'') (int_of_char (s ! 1) - 1)"
    using assms file_letter [OF f] rank_digit [OF r] by (simp add: Square_def)
  show ?thesis
    using file_letter [OF f] rank_digit [OF r]
    by (simp add: sq valid_square_def to_algebraic_def)
qed

text \<open>
  C9, as stated, fails: \<open>from_algebraic\<close> lowers the file character before the test, so
  the string \<open>E4\<close>, whose file character is outside \<open>a\<close>-\<open>h\<close>, is accepted and gives
  the square e4.
\<close>

theorem from_algebraic_upper_case_counterexample:
  "''E4'' ! 0 \<notin> set ''abcdefgh'' \<and> from_algebraic ''E4'' = Inr (Sq 4 3)"
  by (simp add: from_algebraic_def lower_def ord_def chr_def Square_def int_of_char_def Let_def
      char_of_eq_iff)

text \<open>
  C9 (amended): for every file and rank in \<open>0..7\<close>, \<open>from_algebraic\<close> of
  \<open>to_algebraic\<close> of the square is that square; \<open>from_algebraic\<close> raises
  \<open>ValueError\<close> exactly on the strings whose length is not 2, whose first character is
  not a letter \<open>a\<close>-\<open>h\<close> in either case, or whose second character is not a digit
  \<open>1\<close>-\<open>8\<close>; and when it returns, the square is on the board and is the one that the
  lowered file letter and the rank digit name (never a clamped or defaulted one).
\<close>

theorem square_algebraic_conversion:
  "(valid_square sq \<longrightarrow> from_algebraic (to_algebraic sq) = Inr sq) \<and>
   (from_algebraic s = Inl ValueError \<longleftrightarrow>
      (length s \<noteq> 2 \<or> s ! 0 \<notin> set ''abcdefghABCDEFGH'' \<or> s ! 1 \<notin> set ''12345678'')) \<and>
   (from_algebraic s = Inr sq' \<longrightarrow>
      valid_square sq' \<and> to_algebraic sq' = [lower (s ! 0), s ! 1])"
  using from_to_algebraic [of sq] from_algebraic_error [of s] from_algebraic_result [of s sq']
  by blast

theorem square_algebraic_conversion_witness:
  "valid_square (Sq 4 3) \<and> from_algebraic (to_algebraic (Sq 4 3)) = Inr (Sq 4 3)
   \<and> from_algebraic ''e4'' = Inr (Sq 4 3) \<and> to_algebraic (Sq 4 3) = ''e4''
   \<and> from_algebraic ''e9'' = Inl ValueError"
proof -
  have v: "valid_square (Sq 4 3)" by (simp add: valid_square_def)
  have r: "from_algebraic ''e4'' = Inr (Sq 4 3)"
    by (simp add: from_algebraic_def lower_def ord_def chr_def Square_def int_of_char_def Let_def
        char_of_eq_iff)
  have l: "lower (''e4'' ! 0) = CHR ''e''"
    by (simp add: lower_def ord_def Let_def)
  have e: "from_algebraic ''e9'' = Inl ValueError"
    using square_algebraic_conversion [of "Sq 4 3" "''e9''" "Sq 4 3"] by simp
  show ?thesis
    using v r l e square_algebraic_conversion [of "Sq 4 3" "''e4''" "Sq 4 3"] by simp
qed

section \<open>The move executor\<close>

lemma execute_move_fields:
  assumes "execute_move hash s m = Inr s'"
  shows "calculate_en_passant_target m = Inr (en_passant_target s')"
    and "halfmove_clock s' =
          (if piece_type (piece m) = PAWN \<or> captured_piece m \<noteq> None then 0 else halfmove_clock s + 1)"
    and "fullmove_number s' =
          (if current_player s = BLACK then fullmove_number s + 1 else fullmove_number s)"
    and "current_player s' = opposite (current_player s)"
    and "move_history s' = move_history s @ [m]"
    and "game_mode s' = game_mode s"
  using assms
  by (auto simp: execute_move_def Let_def execute_castling_def execute_en_passant_def
      execute_normal_move_def split: sum.splits option.splits if_splits)

lemma execute_move_castling_rights:
  assumes "execute_move hash s m = Inr s'"
  shows "castling_rights s' =
     (let cr = revoke_for_piece (castling_rights s) (piece_type (piece m)) (color (piece m))
                 (from_square m)
      in case captured_piece m of
           None \<Rightarrow> cr
         | Some cp \<Rightarrow> if piece_type cp = ROOK then revoke_for_rook_capture cr (to_square m) else cr)"
  using assms
  by (auto simp: execute_move_def Let_def execute_castling_def execute_en_passant_def
      execute_normal_move_def split: sum.splits option.splits if_splits)

lemma execute_move_returns:
  "(\<exists>s'. execute_move hash s m = Inr s') \<longleftrightarrow> (\<exists>t. calculate_en_passant_target m = Inr t)"
  by (auto simp: execute_move_def Let_def split: sum.splits)

text \<open>
  C6: castling rights only decrease. Whenever \<open>execute_move\<close> returns, each of the four
  rights of the new state implies the same right of the old state; both rights of a colour
  are gone after a move of its king; the right of a side is gone after a rook of that
  colour leaves the corner of that side; and the right that belongs to a corner is gone
  after a rook is captured on that corner. A move of a king or a rook always returns.
\<close>

theorem castling_rights_monotone:
  "(\<forall>s'. execute_move hash s m = Inr s' \<longrightarrow>
      (white_kingside (castling_rights s') \<longrightarrow> white_kingside (castling_rights s)) \<and>
      (white_queenside (castling_rights s') \<longrightarrow> white_queenside (castling_rights s)) \<and>
      (black_kingside (castling_rights s') \<longrightarrow> black_kingside (castling_rights s)) \<and>
      (black_queenside (castling_rights s') \<longrightarrow> black_queenside (castling_rights s)) \<and>
      (piece m = Piece KING WHITE \<longrightarrow>
         \<not> white_kingside (castling_rights s') \<and> \<not> white_queenside (castling_rights s')) \<and>
      (piece m = Piece KING BLACK \<longrightarrow>
         \<not> black_kingside (castling_rights s') \<and> \<not> black_queenside (castling_rights s')) \<and>
      (piece m = Piece ROOK WHITE \<and> from_square m = Sq 7 0 \<longrightarrow>
         \<not> white_kingside (castling_rights s')) \<and>
      (piece m = Piece ROOK WHITE \<and> from_square m = Sq 0 0 \<longrightarrow>
         \<not> white_queenside (castling_rights s')) \<and>
      (piece m = Piece ROOK BLACK \<and> from_square m = Sq 7 7 \<longrightarrow>
         \<not> black_kingside (castling_rights s')) \<and>
      (piece m = Piece ROOK BLACK \<and> from_square m = Sq 0 7 \<longrightarrow>
         \<not> black_queenside (castling_rights s')) \<and>
      (map_option piece_type (captured_piece m) = Some ROOK \<and> to_square m = Sq 7 0 \<longrightarrow>
         \<not> white_kingside (castling_rights s')) \<and>
      (map_option piece_type (captured_piece m) = Some ROOK \<and> to_square m = Sq 0 0 \<longrightarrow>
         \<not> white_queenside (castling_rights s')) \<and>
      (map_option piece_type (captured_piece m) = Some ROOK \<and> to_square m = Sq 7 7 \<longrightarrow>
         \<not> black_kingside (castling_rights s')) \<and>
      (map_option piece_type (captured_piece m) = Some ROOK \<and> to_square m = Sq 0 7 \<longrightarrow>
         \<not> black_queenside (castling_rights s'))) \<and>
   (piece_type (piece m) \<noteq> PAWN \<longrightarrow> (\<exists>s'. execute_move hash s m = Inr s'))"
proof -
  have ret: "\<exists>s'. execute_move hash s m = Inr s'" if "piece_type (piece m) \<noteq> PAWN"
    using that execute_move_returns [of hash s m]
    by (simp add: calculate_en_passant_target_def)
  have rights: "castling_rights s' =
      (let cr = revoke_for_piece (castling_rights s) (piece_type (piece m)) (color (piece m))
                  (from_square m)
       in case captured_piece m of
            None \<Rightarrow> cr
          | Some cp \<Rightarrow> if piece_type cp = ROOK then revoke_for_rook_capture cr (to_square m) else cr)"
    if "execute_move hash s m = Inr s'" for s'
    using that by (rule execute_move_castling_rights)
  show ?thesis
  proof (intro conjI allI impI)
    fix s'
    assume e: "execute_move hash s m = Inr s'"
    note r = rights [OF e]
    {
      assume "white_kingside (castling_rights s')"
      then show "white_kingside (castling_rights s)"
        unfolding r
        by (simp add: revoke_for_piece_def revoke_for_rook_capture_def Let_def
            split: option.splits if_splits)
    next
      assume "white_queenside (castling_rights s')"
      then show "white_queenside (castling_rights s)"
        unfolding r
        by (simp add: revoke_for_piece_def revoke_for_rook_capture_def Let_def
            split: option.splits if_splits)
    next
      assume "black_kingside (castling_rights s')"
      then show "black_kingside (castling_rights s)"
        unfolding r
        by (simp add: revoke_for_piece_def revoke_for_rook_capture_def Let_def
            split: option.splits if_splits)
    next
      assume "black_queenside (castling_rights s')"
      then show "black_queenside (castling_rights s)"
        unfolding r
        by (simp add: revoke_for_piece_def revoke_for_rook_capture_def Let_def
            split: option.splits if_splits)
    next
      assume "piece m = Piece KING WHITE"
      then show "\<not> white_kingside (castling_rights s')" "\<not> white_queenside (castling_rights s')"
        unfolding r
        by (simp_all add: revoke_for_piece_def revoke_for_rook_capture_def Let_def
            split: option.splits)
    next
      assume "piece m = Piece KING BLACK"
      then show "\<not> black_kingside (castling_rights s')" "\<not> black_queenside (castling_rights s')"
        unfolding r
        by (simp_all add: revoke_for_piece_def revoke_for_rook_capture_def Let_def
            split: option.splits)
    next
      assume "piece m = Piece ROOK WHITE \<and> from_square m = Sq 7 0"
      then show "\<not> white_kingside (castling_rights s')"
        unfolding r
        by (simp add: revoke_for_piece_def revoke_for_rook_capture_def Let_def
            split: option.splits)
    next
      assume "piece m = Piece ROOK WHITE \<and> from_square m = Sq 0 0"
      then show "\<not> white_queenside (castling_rights s')"
        unfolding r
        by (simp add: revoke_for_piece_def revoke_for_rook_capture_def Let_def
            split: option.splits)
    next
      assume "piece m = Piece ROOK BLACK \<and> from_square m = Sq 7 7"
      then show "\<not> black_kingside (castling_rights s')"
        unfolding r
        by (simp add: revoke_for_piece_def revoke_for_rook_capture_def Let_def
            split: option.splits)
    next
      assume "piece m = Piece ROOK BLACK \<and> from_square m = Sq 0 7"
      then show "\<not> black_queenside (castling_rights s')"
        unfolding r
        by (simp add: revoke_for_piece_def revoke_for_rook_capture_def Let_def
            split: option.splits)
    next
      assume "map_option piece_type (captured_piece m) = Some ROOK \<and> to_square m = Sq 7 0"
      then show "\<not> white_kingside (castling_rights s')"
        unfolding r
        by (auto simp: revoke_for_piece_def revoke_for_rook_capture_def Let_def
            split: option.splits)
    next
      assume "map_option piece_type (captured_piece m) = Some ROOK \<and> to_square m = Sq 0 0"
      then show "\<not> white_queenside (castling_rights s')"
        unfolding r
        by (auto simp: revoke_for_piece_def revoke_for_rook_capture_def Let_def
            split: option.splits)
    next
      assume "map_option piece_type (captured_piece m) = Some ROOK \<and> to_square m = Sq 7 7"
      then show "\<not> black_kingside (castling_rights s')"
        unfolding r
        by (auto simp: revoke_for_piece_def revoke_for_rook_capture_def Let_def
            split: option.splits)
    next
      assume "map_option piece_type (captured_piece m) = Some ROOK \<and> to_square m = Sq 0 7"
      then show "\<not> black_queenside (castling_rights s')"
        unfolding r
        by (auto simp: revoke_for_piece_def revoke_for_rook_capture_def Let_def
            split: option.splits)
    }
  next
    assume "piece_type (piece m) \<noteq> PAWN"
    then show "\<exists>s'. execute_move hash s m = Inr s'" by (rule ret)
  qed
qed

theorem castling_rights_monotone_witness:
  "map_sum id (\<lambda>s. (white_kingside (castling_rights s), white_queenside (castling_rights s),
                       black_kingside (castling_rights s), black_queenside (castling_rights s)))
     (execute_move (\<lambda>_. 0) (new_game (\<lambda>_. 0) MULTIPLAYER)
        (Move (Sq 4 0) (Sq 4 1) (Piece KING WHITE) None None False False))
   = Inr (False, False, True, True)"
proof -
  let ?m = "Move (Sq 4 0) (Sq 4 1) (Piece KING WHITE) None None False False"
  let ?s = "new_game (\<lambda>_. 0) MULTIPLAYER"
  note t = castling_rights_monotone [of "\<lambda>_. 0" ?s ?m]
  have "piece_type (piece ?m) \<noteq> PAWN" by (simp add: Move_def)
  with t [THEN conjunct2] obtain s' where s': "execute_move (\<lambda>_. 0) ?s ?m = Inr s'"
    by (elim impE exE)
  have k: "piece ?m = Piece KING WHITE" by (simp add: Move_def)
  have w: "\<not> white_kingside (castling_rights s')" "\<not> white_queenside (castling_rights s')"
    using t [THEN conjunct1, rule_format, OF s'] k by simp_all
  have b: "black_kingside (castling_rights s')" "black_queenside (castling_rights s')"
    using execute_move_castling_rights [OF s']
    by (simp_all add: Move_def revoke_for_piece_def new_game_def Let_def)
  show ?thesis by (simp add: s' w b)
qed

section \<open>The position hash\<close>


text \<open>
  C7: the position hash is a function of the board, the side to move, the castling
  rights and the en-passant target only. Two states that agree on these four fields have
  the same hash, whatever their move history, position history, clocks and game mode.
\<close>

theorem position_hash_pure:
  "board s = board s' \<Longrightarrow> current_player s = current_player s' \<Longrightarrow>
   castling_rights s = castling_rights s' \<Longrightarrow> en_passant_target s = en_passant_target s' \<Longrightarrow>
   compute_position_hash hash s = compute_position_hash hash s'"
  by (simp add: compute_position_hash_def)

theorem position_hash_pure_witness:
  "compute_position_hash (\<lambda>_. 0) (new_game (\<lambda>_. 0) MULTIPLAYER)
     = compute_position_hash (\<lambda>_. 0)
         ((new_game (\<lambda>_. 0) MULTIPLAYER)
            \<lparr>halfmove_clock := 7, fullmove_number := 9, move_history := knight_sequence,
             position_history := [], game_mode := SINGLE_PLAYER\<rparr>)"
  by (rule position_hash_pure) simp_all







section \<open>The board\<close>

lemma wf_board_nth: "wf_board b \<longleftrightarrow> length b = 8 \<and> (\<forall>i < 8. length (b ! i) = 8)"
  by (auto simp: wf_board_def list_all_length)

lemma wf_board_set_piece:
  assumes "wf_board b"
  shows "wf_board (set_piece b sq p)"
proof (cases "nat (rank_of sq) < length b")
  case True
  then show ?thesis
    using assms by (auto simp: wf_board_nth set_piece_def nth_list_update)
next
  case False
  then have "set_piece b sq p = b"
    by (simp add: set_piece_def not_less list_update_beyond)
  then show ?thesis
    using assms by simp
qed

lemma remove_piece_set_piece: "remove_piece b sq = set_piece b sq None"
  by (simp add: remove_piece_def set_piece_def)

lemma wf_board_remove_piece: "wf_board b \<Longrightarrow> wf_board (remove_piece b sq)"
  by (simp add: remove_piece_set_piece wf_board_set_piece)

lemma wf_board_empty: "wf_board empty_board"
  by (simp add: wf_board_nth empty_board_def)

lemma get_piece_set_piece:
  assumes "wf_board b" and "valid_square sq" and "valid_square sq'"
  shows "get_piece (set_piece b sq p) sq' = (if sq' = sq then p else get_piece b sq')"
proof -
  obtain f r where sq: "sq = Sq f r" by (cases sq)
  obtain f' r' where sq': "sq' = Sq f' r'" by (cases sq')
  have r: "nat r < length b" and f: "nat f < length (b ! nat r)"
    using assms by (auto simp: wf_board_nth valid_square_def sq)
  have neq: "(nat r' = nat r \<and> nat f' = nat f) \<longleftrightarrow> sq' = sq"
    using assms(2,3) by (auto simp: valid_square_def sq sq')
  show ?thesis
  proof (cases "nat r' = nat r")
    case True
    then show ?thesis
      using r f neq by (auto simp: get_piece_def set_piece_def sq sq' nth_list_update)
  next
    case False
    then show ?thesis
      using neq by (auto simp: get_piece_def set_piece_def sq sq')
  qed
qed

lemma get_piece_remove_piece:
  assumes "wf_board b" and "valid_square sq" and "valid_square sq'"
  shows "get_piece (remove_piece b sq) sq' = (if sq' = sq then None else get_piece b sq')"
  using get_piece_set_piece [OF assms] by (simp add: remove_piece_set_piece)

lemma board_eqI:
  assumes "wf_board b" and "wf_board b'"
    and "\<And>sq. valid_square sq \<Longrightarrow> get_piece b sq = get_piece b' sq"
  shows "b = b'"
proof (rule nth_equalityI)
  show "length b = length b'" using assms(1,2) by (simp add: wf_board_nth)
next
  fix i assume i: "i < length b"
  then have i8: "i < 8" using assms(1) by (simp add: wf_board_nth)
  show "b ! i = b' ! i"
  proof (rule nth_equalityI)
    show "length (b ! i) = length (b' ! i)"
      using assms(1,2) i8 by (simp add: wf_board_nth)
  next
    fix j assume "j < length (b ! i)"
    then have j8: "j < 8" using assms(1) i8 by (simp add: wf_board_nth)
    have "valid_square (Sq (int j) (int i))"
      using i8 j8 by (simp add: valid_square_def)
    from assms(3) [OF this] show "b ! i ! j = b' ! i ! j"
      by (simp add: get_piece_def)
  qed
qed

lemma upto_0_7: "[0..7] = [0, 1, 2, 3, 4, 5, 6, 7 :: int]"
  by code_simp

lemma set_all_squares: "set all_squares = {sq. valid_square sq}"
proof -
  have "sq \<in> set all_squares \<longleftrightarrow> valid_square sq" for sq
    by (cases sq) (auto simp: all_squares_def valid_square_def image_iff)
  then show ?thesis by blast
qed

lemma distinct_all_squares: "distinct all_squares"
  by (simp add: all_squares_def upto_0_7)

lemma get_all_pieces_squares:
  "get_all_pieces b c = concat (map (pieces_on b c) all_squares)"
  by (simp add: get_all_pieces_def all_squares_def pieces_on_def get_piece_def upto_0_7)

lemma in_get_all_pieces:
  "(sq, p) \<in> set (get_all_pieces b c) \<longleftrightarrow>
     valid_square sq \<and> get_piece b sq = Some p \<and> color p = c"
  using set_all_squares
  by (auto simp: get_all_pieces_squares pieces_on_def split: option.splits if_splits)

section \<open>The attack test\<close>

lemma returns_iff: "(\<exists>r. x = Inr r) \<longleftrightarrow> \<not> isl x"
  by (cases x) auto

text \<open>The walk between two squares never looks at the square it is heading for.\<close>

lemma path_clear_loop_agree:
  assumes "\<And>sq. valid_square sq \<Longrightarrow> sq \<noteq> t \<Longrightarrow> get_piece b sq = get_piece b' sq"
  shows "path_clear_loop b f t k = path_clear_loop b' f t k"
  using assms
proof (induction b f t k rule: path_clear_loop.induct)
  case (1 b from_sq to_sq k)
  let ?cf = "file_of from_sq + k * step_of (file_of to_sq - file_of from_sq)"
  let ?cr = "rank_of from_sq + k * step_of (rank_of to_sq - rank_of from_sq)"
  show ?case
  proof (cases "?cf \<noteq> file_of to_sq \<or> ?cr \<noteq> rank_of to_sq")
    case False
    then show ?thesis
      by (simp add: path_clear_loop.simps [of _ from_sq to_sq k])
  next
    case away: True
    show ?thesis
    proof (cases "Square ?cf ?cr")
      case (Inl e)
      with away show ?thesis
        by (simp add: path_clear_loop.simps [of _ from_sq to_sq k])
    next
      case (Inr sq)
      then have sq: "file_of sq = ?cf" "rank_of sq = ?cr" and v: "valid_square sq"
        by (auto simp: Square_def valid_square_def split: if_splits)
      have ne: "sq \<noteq> to_sq" using away sq by auto
      have same: "get_piece b sq = get_piece b' sq"
        using "1.prems" v ne by blast
      show ?thesis
      proof (cases "get_piece b sq")
        case None
        have "path_clear_loop b from_sq to_sq (k + 1) = path_clear_loop b' from_sq to_sq (k + 1)"
          using "1.IH" [OF refl refl refl refl away Inr] None "1.prems" by simp
        then show ?thesis
          using away Inr None same
          by (simp add: path_clear_loop.simps [of _ from_sq to_sq k])
      next
        case (Some p)
        then show ?thesis
          using away Inr same
          by (simp add: path_clear_loop.simps [of _ from_sq to_sq k])
      qed
    qed
  qed
qed

text \<open>
  Between two squares of the board that lie on a common rank, file or diagonal the walk
  stays on the board, so the constructor never raises.
\<close>

lemma step_of_values: "step_of x \<in> {- 1, 0, 1}"
  by (simp add: step_of_def)

lemma path_clear_loop_inside:
  assumes "valid_square f" and "valid_square t"
    and "file_of t = file_of f + d * step_of (file_of t - file_of f)"
    and "rank_of t = rank_of f + d * step_of (rank_of t - rank_of f)"
    and "0 \<le> k" and "k \<le> d"
  shows "\<not> isl (path_clear_loop b f t k)"
  using assms(5,6)
proof (induction "nat (d - k)" arbitrary: k)
  case 0
  then have "k = d" by simp
  then have "file_of f + k * step_of (file_of t - file_of f) = file_of t"
    and "rank_of f + k * step_of (rank_of t - rank_of f) = rank_of t"
    using assms(3,4) by simp_all
  then show ?case
    by (simp add: path_clear_loop.simps [of b f t k])
next
  case (Suc n)
  define fs where "fs = step_of (file_of t - file_of f)"
  define rs where "rs = step_of (rank_of t - rank_of f)"
  have lt: "k < d" using Suc.hyps(2) by linarith
  have fs: "fs \<in> {- 1, 0, 1}" and rs: "rs \<in> {- 1, 0, 1}"
    unfolding fs_def rs_def by (rule step_of_values)+
  have t: "file_of t = file_of f + d * fs" "rank_of t = rank_of f + d * rs"
    using assms(3,4) by (simp_all add: fs_def rs_def)
  have inside: "0 \<le> file_of f + k * fs \<and> file_of f + k * fs \<le> 7
      \<and> 0 \<le> rank_of f + k * rs \<and> rank_of f + k * rs \<le> 7"
    using assms(1,2) t Suc.prems(1) lt fs rs
    by (auto simp: valid_square_def)
  then have sq: "Square (file_of f + k * fs) (rank_of f + k * rs)
      = Inr (Sq (file_of f + k * fs) (rank_of f + k * rs))"
    by (simp add: Square_def)
  have "\<not> isl (path_clear_loop b f t (k + 1))"
  proof (rule Suc.hyps(1))
    show "n = nat (d - (k + 1))" using Suc.hyps(2) by linarith
    show "0 \<le> k + 1" using Suc.prems(1) by simp
    show "k + 1 \<le> d" using lt by simp
  qed
  then show ?case
    using sq
    by (simp add: path_clear_loop.simps [of b f t k] Let_def fs_def [symmetric] rs_def [symmetric])
qed

lemma is_path_clear_total:
  assumes "valid_square f" and "valid_square t"
    and "\<bar>file_of t - file_of f\<bar> = \<bar>rank_of t - rank_of f\<bar>
         \<or> file_of t = file_of f \<or> rank_of t = rank_of f"
  shows "\<not> isl (is_path_clear s f t)"
proof -
  let ?fd = "file_of t - file_of f" and ?rd = "rank_of t - rank_of f"
  let ?d = "max \<bar>?fd\<bar> \<bar>?rd\<bar>"
  have a: "file_of t = file_of f + ?d * step_of ?fd"
    and b: "rank_of t = rank_of f + ?d * step_of ?rd"
    using assms(3) by (auto simp: step_of_def max_def)
  show ?thesis
  proof (cases "?d = 0")
    case True
    then have "file_of t = file_of f" "rank_of t = rank_of f" by auto
    then show ?thesis
      by (simp add: is_path_clear_def path_clear_loop.simps [of _ f t 1] step_of_def)
  next
    case False
    then have "1 \<le> ?d" by linarith
    from path_clear_loop_inside [OF assms(1,2) a b _ this]
    show ?thesis by (simp add: is_path_clear_def)
  qed
qed

lemma is_path_clear_agree:
  assumes "\<And>sq. valid_square sq \<Longrightarrow> sq \<noteq> t \<Longrightarrow> get_piece (board s) sq = get_piece (board s') sq"
  shows "is_path_clear s f t = is_path_clear s' f t"
  unfolding is_path_clear_def using assms by (rule path_clear_loop_agree)

lemma can_piece_attack_square_agree:
  assumes "\<And>sq. valid_square sq \<Longrightarrow> sq \<noteq> t \<Longrightarrow> get_piece (board s) sq = get_piece (board s') sq"
  shows "can_piece_attack_square s f p t = can_piece_attack_square s' f p t"
proof -
  have pc: "is_path_clear s f t = is_path_clear s' f t"
    using assms by (rule is_path_clear_agree)
  have b: "can_bishop_attack s f t = can_bishop_attack s' f t"
    by (simp add: can_bishop_attack_def pc)
  have r: "can_rook_attack s f t = can_rook_attack s' f t"
    by (simp add: can_rook_attack_def pc)
  have q: "can_queen_attack s f t = can_queen_attack s' f t"
    unfolding can_queen_attack_def b r ..
  show ?thesis
    by (simp add: can_piece_attack_square_def b r q)
qed

lemma can_piece_attack_square_self: "can_piece_attack_square s t p t = Inr False"
  by (cases "piece_type p")
     (simp_all add: can_piece_attack_square_def can_queen_attack_def can_bishop_attack_def
       can_rook_attack_def can_pawn_attack_def can_knight_attack_def can_king_attack_def Let_def)

lemma can_piece_attack_square_total:
  assumes "valid_square f" and "valid_square t"
  shows "\<not> isl (can_piece_attack_square s f p t)"
proof -
  have bishop: "\<not> isl (can_bishop_attack s f t)"
    using is_path_clear_total [OF assms, of s]
    by (auto simp: can_bishop_attack_def Let_def)
  have rook: "\<not> isl (can_rook_attack s f t)"
    using is_path_clear_total [OF assms, of s]
    by (auto simp: can_rook_attack_def Let_def)
  have queen: "\<not> isl (can_queen_attack s f t)"
    using bishop rook by (auto simp: can_queen_attack_def split: sum.splits bool.splits)
  show ?thesis
    using bishop rook queen
    by (cases "piece_type p") (simp_all add: can_piece_attack_square_def)
qed

lemma attacked_by_any_append:
  "attacked_by_any s (xs @ ys) t =
     (case attacked_by_any s xs t of
        Inl e \<Rightarrow> Inl e
      | Inr True \<Rightarrow> Inr True
      | Inr False \<Rightarrow> attacked_by_any s ys t)"
  by (induction xs) (auto split: sum.splits bool.splits)

lemma attacked_by_any_total:
  assumes "\<And>sq p. (sq, p) \<in> set ps \<Longrightarrow> valid_square sq" and "valid_square t"
  shows "\<not> isl (attacked_by_any s ps t)"
  using assms(1)
proof (induction ps)
  case Nil
  show ?case by simp
next
  case (Cons x ps)
  obtain sq p where x: "x = (sq, p)" by (cases x)
  have "valid_square sq" using Cons.prems [of sq p] x by simp
  from can_piece_attack_square_total [OF this assms(2), of s p]
  have "\<not> isl (can_piece_attack_square s sq p t)" .
  with Cons show ?case
    by (auto simp: x split: sum.splits bool.splits)
qed

lemma is_square_attacked_total:
  assumes "valid_square t"
  shows "\<not> isl (is_square_attacked s t c)"
  unfolding is_square_attacked_def
  by (rule attacked_by_any_total) (auto simp: in_get_all_pieces assms)

lemma find_king_position_valid:
  assumes "find_king_position s c = Some sq"
  shows "valid_square sq \<and> get_piece (board s) sq = Some (Piece KING c)"
proof -
  from assms have "sq \<in> set all_squares"
    and "case get_piece (board s) sq of None \<Rightarrow> False | Some p \<Rightarrow> piece_type p = KING \<and> color p = c"
    by (auto simp: find_king_position_def find_Some_iff)
  then show ?thesis
    by (auto simp: set_all_squares split: option.splits intro: piece.expand)
qed

lemma is_check_total: "\<not> isl (is_check s c)"
proof (cases "find_king_position s c")
  case None
  then show ?thesis by (simp add: is_check_def)
next
  case (Some sq)
  with find_king_position_valid [OF Some] is_square_attacked_total [of sq s "opposite c"]
  show ?thesis by (simp add: is_check_def)
qed

text \<open>Both tests read the board only.\<close>

lemma is_square_attacked_board:
  assumes "board s = board s'"
  shows "is_square_attacked s t c = is_square_attacked s' t c"
proof -
  have "can_piece_attack_square s f p t = can_piece_attack_square s' f p t" for f p
    by (rule can_piece_attack_square_agree) (simp add: assms)
  then have "attacked_by_any s ps t = attacked_by_any s' ps t" for ps
    by (induction ps) (auto split: sum.splits bool.splits)
  then show ?thesis by (simp add: is_square_attacked_def assms)
qed

lemma is_check_board:
  assumes "board s = board s'"
  shows "is_check s c = is_check s' c"
  using is_square_attacked_board [OF assms]
  by (simp add: is_check_def find_king_position_def assms split: option.splits)

lemma attacked_by_any_self:
  "attacked_by_any s (pieces_on b c t) t = Inr False"
  by (simp add: pieces_on_def can_piece_attack_square_self split: option.splits)

lemma attacked_by_any_agree:
  assumes "\<And>sq. valid_square sq \<Longrightarrow> sq \<noteq> t \<Longrightarrow> get_piece (board s) sq = get_piece (board s') sq"
  shows "attacked_by_any s ps t = attacked_by_any s' ps t"
proof (induction ps)
  case Nil
  show ?case by simp
next
  case (Cons x ps)
  obtain f p where x: "x = (f, p)" by (cases x)
  have "can_piece_attack_square s f p t = can_piece_attack_square s' f p t"
    using assms by (rule can_piece_attack_square_agree)
  with Cons show ?case by (simp add: x split: sum.splits bool.splits)
qed

lemma attacked_by_pieces_agree:
  assumes agree: "\<And>sq. valid_square sq \<Longrightarrow> sq \<noteq> t \<Longrightarrow>
                    get_piece (board s) sq = get_piece (board s') sq"
    and "\<And>sq. sq \<in> set sqs \<Longrightarrow> valid_square sq"
  shows "attacked_by_any s (concat (map (pieces_on (board s) c) sqs)) t
       = attacked_by_any s' (concat (map (pieces_on (board s') c) sqs)) t"
  using assms(2)
proof (induction sqs)
  case Nil
  show ?case by simp
next
  case (Cons sq sqs)
  have rest: "attacked_by_any s (concat (map (pieces_on (board s) c) sqs)) t
       = attacked_by_any s' (concat (map (pieces_on (board s') c) sqs)) t"
    using Cons by simp
  have head: "attacked_by_any s (pieces_on (board s) c sq) t
       = attacked_by_any s' (pieces_on (board s') c sq) t"
  proof (cases "sq = t")
    case True
    then show ?thesis by (simp add: attacked_by_any_self)
  next
    case False
    have "valid_square sq" using Cons.prems by simp
    with False have "pieces_on (board s) c sq = pieces_on (board s') c sq"
      using agree by (simp add: pieces_on_def)
    then show ?thesis
      using attacked_by_any_agree [OF agree] by simp
  qed
  show ?case
    by (simp add: attacked_by_any_append head rest split: sum.splits bool.splits)
qed

text \<open>
  C10: \<open>is_square_attacked\<close> does not depend on what stands on the target square. For
  two states whose boards hold the same pieces on every square of the board other than
  the target, the results are equal; so the result for an occupied target, whatever the
  colour of the piece on it, is the result for the same square emptied. The test never
  raises.
\<close>

theorem is_square_attacked_ignores_target:
  assumes "wf_board (board s)" and "wf_board (board s')" and "valid_square t"
    and "\<forall>sq. valid_square sq \<and> sq \<noteq> t \<longrightarrow> get_piece (board s) sq = get_piece (board s') sq"
  shows "is_square_attacked s t c = is_square_attacked s' t c
     \<and> is_square_attacked s t c = is_square_attacked (s\<lparr>board := remove_piece (board s) t\<rparr>) t c
     \<and> \<not> isl (is_square_attacked s t c)"
proof -
  have valid: "\<And>sq. sq \<in> set all_squares \<Longrightarrow> valid_square sq"
    by (simp add: set_all_squares)
  have a: "is_square_attacked s t c = is_square_attacked s' t c"
    unfolding is_square_attacked_def get_all_pieces_squares
    by (rule attacked_by_pieces_agree [OF _ valid]) (use assms(4) in blast)
  have b: "is_square_attacked s t c = is_square_attacked (s\<lparr>board := remove_piece (board s) t\<rparr>) t c"
    unfolding is_square_attacked_def get_all_pieces_squares
    by (rule attacked_by_pieces_agree [OF _ valid])
       (simp add: get_piece_remove_piece assms(1,3))
  show ?thesis
    using a b is_square_attacked_total [OF assms(3)] by simp
qed

theorem is_square_attacked_ignores_target_witness:
  "is_square_attacked (rook_file_state None) (Sq 0 4) WHITE = Inr True
   \<and> is_square_attacked (rook_file_state (Some (Piece PAWN BLACK))) (Sq 0 4) WHITE = Inr True
   \<and> is_square_attacked (rook_file_state (Some (Piece KNIGHT WHITE))) (Sq 0 4) WHITE = Inr True"
proof -
  have e: "is_square_attacked (rook_file_state None) (Sq 0 4) WHITE = Inr True"
    by code_simp
  have w: "wf_board (board (rook_file_state x))" for x
    by (simp add: rook_file_state_def GameState_def board_of_def wf_board_set_piece wf_board_empty)
  have v: "valid_square (Sq 0 4)" by (simp add: valid_square_def)
  have g: "\<forall>sq. valid_square sq \<and> sq \<noteq> Sq 0 4 \<longrightarrow>
      get_piece (board (rook_file_state x)) sq = get_piece (board (rook_file_state None)) sq" for x
    by (simp add: rook_file_state_def GameState_def board_of_def get_piece_set_piece
        wf_board_set_piece wf_board_empty v)
  show ?thesis
    using is_square_attacked_ignores_target [OF w w v g, of "Some (Piece PAWN BLACK)" WHITE]
      is_square_attacked_ignores_target [OF w w v g, of "Some (Piece KNIGHT WHITE)" WHITE] e
    by simp
qed

section \<open>The shape of the generated moves\<close>

lemma generate_pawn_moves_shape:
  assumes "m \<in> set (generate_pawn_moves s sq pc)" and "valid_square sq"
  shows "from_square m = sq \<and> piece m = pc \<and> valid_square (to_square m) \<and> \<not> is_castling m
     \<and> promotion_piece m \<in> {None, Some QUEEN, Some ROOK, Some BISHOP, Some KNIGHT}
     \<and> (is_en_passant m \<longrightarrow> promotion_piece m = None \<and> en_passant_target s = Some (to_square m)
           \<and> rank_of (to_square m) - rank_of sq = pawn_direction (color pc))
     \<and> (rank_of (to_square m) - rank_of sq = pawn_direction (color pc)
          \<or> rank_of (to_square m) - rank_of sq = 2 * pawn_direction (color pc)
            \<and> file_of (to_square m) = file_of sq
            \<and> rank_of sq = (if color pc = WHITE then 1 else 6))"
proof -
  define P where "P m' \<longleftrightarrow>
     from_square m' = sq \<and> piece m' = pc \<and> valid_square (to_square m') \<and> \<not> is_castling m'
     \<and> promotion_piece m' \<in> {None, Some QUEEN, Some ROOK, Some BISHOP, Some KNIGHT}
     \<and> (is_en_passant m' \<longrightarrow> promotion_piece m' = None \<and> en_passant_target s = Some (to_square m')
           \<and> rank_of (to_square m') - rank_of sq = pawn_direction (color pc))
     \<and> (rank_of (to_square m') - rank_of sq = pawn_direction (color pc)
          \<or> rank_of (to_square m') - rank_of sq = 2 * pawn_direction (color pc)
            \<and> file_of (to_square m') = file_of sq
            \<and> rank_of sq = (if color pc = WHITE then 1 else 6))" for m' :: move
  have "list_all P (generate_pawn_moves s sq pc)"
    using assms(2) unfolding generate_pawn_moves_def Let_def promotion_types_def
    apply (simp only: list_all_append list.map concat.simps append_Nil2)
    apply (intro conjI)
      apply (simp_all add: P_def Move_def valid_square_def pawn_direction_def)
    done
  with assms(1) have "P m"
    by (simp add: list_all_iff)
  then show ?thesis
    unfolding P_def .
qed

lemma offset_moves_shape:
  assumes "m \<in> set (offset_moves s sq pc offsets)"
  shows "from_square m = sq \<and> piece m = pc \<and> valid_square (to_square m) \<and> \<not> is_castling m
     \<and> \<not> is_en_passant m \<and> promotion_piece m = None"
  using assms
  by (auto simp: offset_moves_def Let_def Move_def valid_square_def split: if_splits)

lemma sliding_loop_shape:
  "m \<in> set (sliding_loop b sq pc fd rd cf cr) \<Longrightarrow>
     from_square m = sq \<and> piece m = pc \<and> valid_square (to_square m) \<and> \<not> is_castling m
     \<and> \<not> is_en_passant m \<and> promotion_piece m = None"
proof (induction b sq pc fd rd cf cr rule: sliding_loop.induct)
  case (1 b square pc file_dir rank_dir current_file current_rank)
  show ?case
    using "1.prems" "1.IH"
    by (subst (asm) sliding_loop.simps)
       (auto simp: Let_def Move_def valid_square_def split: if_splits option.splits)
qed

lemma generate_sliding_moves_shape:
  "m \<in> set (generate_sliding_moves s sq pc fd rd) \<Longrightarrow>
     from_square m = sq \<and> piece m = pc \<and> valid_square (to_square m) \<and> \<not> is_castling m
     \<and> \<not> is_en_passant m \<and> promotion_piece m = None"
  unfolding generate_sliding_moves_def by (rule sliding_loop_shape)

lemma generate_castling_moves_shape:
  assumes "m \<in> set (generate_castling_moves s sq pc)"
  shows "from_square m = sq \<and> piece m = pc \<and> is_castling m \<and> \<not> is_en_passant m
     \<and> promotion_piece m = None \<and> captured_piece m = None
     \<and> sq = Sq 4 (if color pc = WHITE then 0 else 7)
     \<and> (to_square m = Sq 6 (if color pc = WHITE then 0 else 7)
          \<or> to_square m = Sq 2 (if color pc = WHITE then 0 else 7))"
  using assms
  by (auto simp: generate_castling_moves_def Let_def Move_def split: if_splits)

lemma generate_piece_moves_shape:
  assumes "m \<in> set (generate_piece_moves s sq)" and "valid_square sq"
  shows "from_square m = sq \<and> get_piece (board s) sq = Some (piece m) \<and> valid_square (to_square m)
     \<and> promotion_piece m \<in> {None, Some QUEEN, Some ROOK, Some BISHOP, Some KNIGHT}
     \<and> (promotion_piece m \<noteq> None \<longrightarrow> piece_type (piece m) = PAWN)
     \<and> (is_castling m \<longrightarrow>
           piece_type (piece m) = KING \<and> \<not> is_en_passant m \<and> promotion_piece m = None
           \<and> captured_piece m = None
           \<and> sq = Sq 4 (if color (piece m) = WHITE then 0 else 7)
           \<and> (to_square m = Sq 6 (if color (piece m) = WHITE then 0 else 7)
                \<or> to_square m = Sq 2 (if color (piece m) = WHITE then 0 else 7)))
     \<and> (is_en_passant m \<longrightarrow>
           piece_type (piece m) = PAWN \<and> promotion_piece m = None
           \<and> en_passant_target s = Some (to_square m)
           \<and> rank_of (to_square m) - rank_of sq = pawn_direction (color (piece m)))
     \<and> (piece_type (piece m) = PAWN \<longrightarrow>
           rank_of (to_square m) - rank_of sq = pawn_direction (color (piece m))
           \<or> rank_of (to_square m) - rank_of sq = 2 * pawn_direction (color (piece m))
             \<and> file_of (to_square m) = file_of sq
             \<and> rank_of sq = (if color (piece m) = WHITE then 1 else 6))"
proof -
  obtain pc where pc: "get_piece (board s) sq = Some pc"
    using assms(1) by (cases "get_piece (board s) sq") (simp_all add: generate_piece_moves_def)
  have valid6: "valid_square (Sq 6 (if c = WHITE then 0 else 7))"
    and valid2: "valid_square (Sq 2 (if c = WHITE then 0 else 7))" for c
    by (simp_all add: valid_square_def)
  consider (pawn) "piece_type pc = PAWN" "m \<in> set (generate_pawn_moves s sq pc)"
    | (offs) offsets where "piece_type pc \<noteq> PAWN" "m \<in> set (offset_moves s sq pc offsets)"
    | (slide) fd rd where "piece_type pc \<noteq> PAWN" "m \<in> set (generate_sliding_moves s sq pc fd rd)"
    | (castle) "piece_type pc = KING" "m \<in> set (generate_castling_moves s sq pc)"
    using assms(1) pc
    by (auto simp: generate_piece_moves_def generate_knight_moves_def generate_king_moves_def
        generate_bishop_moves_def generate_rook_moves_def generate_queen_moves_def
        split: if_splits)
  then show ?thesis
  proof cases
    case pawn
    from generate_pawn_moves_shape [OF pawn(2) assms(2)] pawn(1) pc show ?thesis
      by simp
  next
    case offs
    from offset_moves_shape [OF offs(2)] offs(1) pc show ?thesis
      by simp
  next
    case slide
    from generate_sliding_moves_shape [OF slide(2)] slide(1) pc show ?thesis
      by simp
  next
    case castle
    from generate_castling_moves_shape [OF castle(2)] castle(1) pc show ?thesis
      using valid6 [of "color pc"] valid2 [of "color pc"] by auto
  qed
qed

lemma generated_move_piece:
  assumes "m \<in> set (generate_pseudo_legal_moves s c)"
  shows "valid_square (from_square m) \<and> color (piece m) = c
     \<and> m \<in> set (generate_piece_moves s (from_square m))"
proof -
  from assms obtain sq pc where sq: "(sq, pc) \<in> set (get_all_pieces (board s) c)"
    and m: "m \<in> set (generate_piece_moves s sq)"
    by (auto simp: generate_pseudo_legal_moves_def)
  from sq have v: "valid_square sq" and p: "get_piece (board s) sq = Some pc" "color pc = c"
    by (simp_all add: in_get_all_pieces)
  from generate_piece_moves_shape [OF m v] p m v show ?thesis
    by simp
qed

lemma generated_move_shape:
  assumes "m \<in> set (generate_pseudo_legal_moves s c)"
  shows "valid_square (from_square m) \<and> valid_square (to_square m) \<and> color (piece m) = c
     \<and> get_piece (board s) (from_square m) = Some (piece m)
     \<and> promotion_piece m \<in> {None, Some QUEEN, Some ROOK, Some BISHOP, Some KNIGHT}
     \<and> (promotion_piece m \<noteq> None \<longrightarrow> piece_type (piece m) = PAWN)
     \<and> (is_castling m \<longrightarrow>
           piece_type (piece m) = KING \<and> \<not> is_en_passant m \<and> promotion_piece m = None
           \<and> captured_piece m = None
           \<and> from_square m = Sq 4 (if c = WHITE then 0 else 7)
           \<and> (to_square m = Sq 6 (if c = WHITE then 0 else 7)
                \<or> to_square m = Sq 2 (if c = WHITE then 0 else 7)))
     \<and> (is_en_passant m \<longrightarrow>
           piece_type (piece m) = PAWN \<and> promotion_piece m = None
           \<and> en_passant_target s = Some (to_square m)
           \<and> rank_of (to_square m) - rank_of (from_square m) = pawn_direction c)
     \<and> (piece_type (piece m) = PAWN \<longrightarrow>
           rank_of (to_square m) - rank_of (from_square m) = pawn_direction c
           \<or> rank_of (to_square m) - rank_of (from_square m) = 2 * pawn_direction c
             \<and> file_of (to_square m) = file_of (from_square m)
             \<and> rank_of (from_square m) = (if c = WHITE then 1 else 6))"
proof -
  from generated_move_piece [OF assms]
  have v: "valid_square (from_square m)" and c: "color (piece m) = c"
    and m: "m \<in> set (generate_piece_moves s (from_square m))"
    by simp_all
  from generate_piece_moves_shape [OF m v] c v show ?thesis
    by simp
qed

section \<open>The executor on generated moves\<close>

lemma calculate_en_passant_target_generated:
  assumes "m \<in> set (generate_pseudo_legal_moves s c)"
  shows "calculate_en_passant_target m =
     Inr (if piece_type (piece m) = PAWN \<and>
             rank_of (to_square m) - rank_of (from_square m) = 2 * pawn_direction c
          then Some (Sq (file_of (from_square m)) (rank_of (from_square m) + pawn_direction c))
          else None)"
proof -
  note g = generated_move_shape [OF assms]
  from g have c: "color (piece m) = c"
    and p: "piece_type (piece m) = PAWN \<longrightarrow>
           rank_of (to_square m) - rank_of (from_square m) = pawn_direction c
           \<or> rank_of (to_square m) - rank_of (from_square m) = 2 * pawn_direction c
             \<and> file_of (to_square m) = file_of (from_square m)
             \<and> rank_of (from_square m) = (if c = WHITE then 1 else 6)"
    and v: "valid_square (from_square m)"
    by simp_all
  show ?thesis
  proof (cases "piece_type (piece m) = PAWN")
    case False
    then show ?thesis by (simp add: calculate_en_passant_target_def)
  next
    case True
    with p v c show ?thesis
      by (cases c)
         (auto simp: calculate_en_passant_target_def pawn_direction_def valid_square_def
            Square_def Let_def)
  qed
qed

text \<open>
  C5: the counters after a move. The executor trusts its input: it is called with moves
  that the generator has produced (the legal moves are among the pseudo-legal ones). For
  every state and every move generated for a colour \<open>c\<close>, \<open>execute_move\<close> returns a
  state in which the en-passant target is set if and only if the moved piece is a pawn
  that advanced exactly two ranks; the pawn then stayed on its file and the target is
  the square between origin and destination; the halfmove clock is 0 if the move is a
  pawn move or a capture and the old clock plus 1 otherwise; the fullmove number is
  incremented exactly when the side that moved, the side to move of the old state, is
  Black; the turn passes to the other side. The moved piece has the colour \<open>c\<close>.
\<close>

theorem execute_move_counters:
  assumes "m \<in> set (generate_pseudo_legal_moves s c)"
  shows "\<exists>s'. execute_move hash s m = Inr s' \<and>
     (en_passant_target s' \<noteq> None \<longleftrightarrow>
        piece_type (piece m) = PAWN \<and>
        rank_of (to_square m) - rank_of (from_square m) = 2 * pawn_direction (color (piece m))) \<and>
     (en_passant_target s' \<noteq> None \<longrightarrow>
        file_of (to_square m) = file_of (from_square m) \<and>
        en_passant_target s' =
          Some (Sq (file_of (from_square m))
                   (rank_of (from_square m) + pawn_direction (color (piece m))))) \<and>
     halfmove_clock s' =
       (if piece_type (piece m) = PAWN \<or> captured_piece m \<noteq> None then 0
        else halfmove_clock s + 1) \<and>
     fullmove_number s' =
       (if current_player s = BLACK then fullmove_number s + 1 else fullmove_number s) \<and>
     current_player s' = opposite (current_player s) \<and>
     color (piece m) = c"
proof -
  note t = calculate_en_passant_target_generated [OF assms]
  then obtain s' where s': "execute_move hash s m = Inr s'"
    using execute_move_returns [of hash s m] by auto
  note g = generated_move_shape [OF assms]
  from g have c: "color (piece m) = c"
    and p: "piece_type (piece m) = PAWN \<longrightarrow>
           rank_of (to_square m) - rank_of (from_square m) = pawn_direction c
           \<or> rank_of (to_square m) - rank_of (from_square m) = 2 * pawn_direction c
             \<and> file_of (to_square m) = file_of (from_square m)
             \<and> rank_of (from_square m) = (if c = WHITE then 1 else 6)"
    by simp_all
  have d: "pawn_direction c \<noteq> 2 * pawn_direction c"
    by (simp add: pawn_direction_def)
  from execute_move_fields(1) [OF s'] t
  have e: "en_passant_target s' =
     (if piece_type (piece m) = PAWN \<and>
         rank_of (to_square m) - rank_of (from_square m) = 2 * pawn_direction c
      then Some (Sq (file_of (from_square m)) (rank_of (from_square m) + pawn_direction c))
      else None)"
    by simp
  have "file_of (to_square m) = file_of (from_square m)" if "en_passant_target s' \<noteq> None"
    using that e p d by (auto split: if_splits)
  with e c execute_move_fields(2-4) [OF s'] s' show ?thesis
    by auto
qed

theorem execute_move_counters_witness:
  "map_sum id (\<lambda>s. (en_passant_target s, halfmove_clock s, fullmove_number s, current_player s))
     (execute_move (\<lambda>_. 0) (new_game (\<lambda>_. 0) MULTIPLAYER)
        (Move (Sq 4 1) (Sq 4 3) (Piece PAWN WHITE) None None False False))
   = Inr (Some (Sq 4 2), 0, 1, BLACK)"
proof -
  let ?m = "Move (Sq 4 1) (Sq 4 3) (Piece PAWN WHITE) None None False False"
  let ?s = "new_game (\<lambda>_. 0) MULTIPLAYER"
  have g: "?m \<in> set (generate_pseudo_legal_moves ?s WHITE)"
    by code_simp
  have f: "current_player ?s = WHITE" "fullmove_number ?s = 1"
    by (simp_all add: new_game_def Let_def)
  from execute_move_counters [OF g, of "\<lambda>_. 0"]
  obtain s' where s': "execute_move (\<lambda>_. 0) ?s ?m = Inr s'"
    and r: "en_passant_target s' = Some (Sq 4 2)" "halfmove_clock s' = 0"
      "fullmove_number s' = 1" "current_player s' = BLACK"
    by (auto simp: Move_def pawn_direction_def opposite_def f)
  show ?thesis by (simp add: s' r)
qed

section \<open>Threefold repetition\<close>
















section \<open>Legal moves\<close>

lemma filter_legal_moves_result:
  "filter_legal_moves s ms = Inr r \<Longrightarrow> r = filter (\<lambda>m. is_legal_move s m = Inr True) ms"
  by (induction ms arbitrary: r) (auto split: sum.splits)

lemma filter_legal_moves_total:
  "(\<And>m. m \<in> set ms \<Longrightarrow> \<not> isl (is_legal_move s m)) \<Longrightarrow> \<not> isl (filter_legal_moves s ms)"
proof (induction ms)
  case Nil
  show ?case by simp
next
  case (Cons m ms)
  obtain ok where "is_legal_move s m = Inr ok"
    using Cons.prems [of m] by (cases "is_legal_move s m") auto
  moreover obtain rest where "filter_legal_moves s ms = Inr rest"
    using Cons.IH Cons.prems by (cases "filter_legal_moves s ms") auto
  ultimately show ?case by simp
qed

lemma filter_legal_moves_all:
  "(\<And>m. m \<in> set ms \<Longrightarrow> is_legal_move s m = Inr True) \<Longrightarrow> filter_legal_moves s ms = Inr ms"
  by (induction ms) auto

lemma would_leave_in_check_total: "\<not> isl (would_leave_in_check s m)"
  by (simp add: would_leave_in_check_def is_check_total)

text \<open>
  The validator returns on every generated move: a castling move starts on the e-file, so
  the square next to the king is on the board.
\<close>

lemma validate_castling_total:
  assumes "valid_square (from_square m)" and "1 \<le> file_of (from_square m)"
    and "file_of (from_square m) \<le> 6"
  shows "\<not> isl (validate_castling s m)"
proof -
  obtain chk where chk: "is_check s (color (piece m)) = Inr chk"
    using is_check_total [of s "color (piece m)"] by (cases "is_check s (color (piece m))") auto
  obtain w where w: "would_leave_in_check s m = Inr w"
    using would_leave_in_check_total [of s m] by (cases "would_leave_in_check s m") auto
  let ?f = "file_of (from_square m)" and ?r = "rank_of (from_square m)"
  have v: "valid_square (Sq (?f + 1) ?r)" "valid_square (Sq (?f - 1) ?r)"
    using assms by (simp_all add: valid_square_def)
  obtain a1 where a1: "is_square_attacked s (Sq (?f + 1) ?r) (opposite (color (piece m))) = Inr a1"
    using is_square_attacked_total [OF v(1), of s "opposite (color (piece m))"]
    by (cases "is_square_attacked s (Sq (?f + 1) ?r) (opposite (color (piece m)))") auto
  obtain a2 where a2: "is_square_attacked s (Sq (?f - 1) ?r) (opposite (color (piece m))) = Inr a2"
    using is_square_attacked_total [OF v(2), of s "opposite (color (piece m))"]
    by (cases "is_square_attacked s (Sq (?f - 1) ?r) (opposite (color (piece m)))") auto
  have sq: "Square (?f + 1) ?r = Inr (Sq (?f + 1) ?r)" "Square (?f - 1) ?r = Inr (Sq (?f - 1) ?r)"
    using v by (simp_all add: Square_def valid_square_def)
  show ?thesis
    by (simp add: validate_castling_def Let_def sq chk a1 a2 w split: bool.splits)
qed

lemma is_legal_move_total:
  assumes "m \<in> set (generate_pseudo_legal_moves s c)"
  shows "\<not> isl (is_legal_move s m)"
proof -
  note g = generated_move_shape [OF assms]
  obtain w where w: "would_leave_in_check s m = Inr w"
    using would_leave_in_check_total [of s m] by (cases "would_leave_in_check s m") auto
  show ?thesis
  proof (cases "is_castling m")
    case True
    with g have "from_square m = Sq 4 (if c = WHITE then 0 else 7)"
      by simp
    then have "\<not> isl (validate_castling s m)"
      by (intro validate_castling_total) (simp_all add: valid_square_def)
    with True show ?thesis by (simp add: is_legal_move_def)
  next
    case False
    then show ?thesis
      by (simp add: is_legal_move_def validate_en_passant_def w)
  qed
qed

lemma get_legal_moves_total: "\<not> isl (get_legal_moves s c)"
  unfolding get_legal_moves_def
  by (rule filter_legal_moves_total) (rule is_legal_move_total)

lemma get_legal_moves_result:
  assumes "get_legal_moves s c = Inr ms"
  shows "m \<in> set ms \<longleftrightarrow>
     m \<in> set (generate_pseudo_legal_moves s c) \<and> is_legal_move s m = Inr True"
  using filter_legal_moves_result [OF assms [unfolded get_legal_moves_def]] by auto

lemma is_legal_move_safe:
  "is_legal_move s m = Inr True \<Longrightarrow> would_leave_in_check s m = Inr False"
  by (auto simp: is_legal_move_def validate_castling_def validate_en_passant_def Let_def
      split: if_splits sum.splits bool.splits)

text \<open>
  C2: checkmate and stalemate. \<open>is_checkmate\<close> is true exactly when the side to move is
  in check and has no legal move, \<open>is_stalemate\<close> exactly when it is not in check and has
  no legal move; the two are never both true, and neither of them raises.
\<close>

theorem checkmate_stalemate:
  "(is_checkmate s = Inr True \<longleftrightarrow>
      is_check s (current_player s) = Inr True \<and> get_legal_moves s (current_player s) = Inr [])
   \<and> (is_stalemate s = Inr True \<longleftrightarrow>
      is_check s (current_player s) = Inr False \<and> get_legal_moves s (current_player s) = Inr [])
   \<and> \<not> (is_checkmate s = Inr True \<and> is_stalemate s = Inr True)
   \<and> \<not> isl (is_checkmate s) \<and> \<not> isl (is_stalemate s)"
proof -
  obtain chk where chk: "is_check s (current_player s) = Inr chk"
    using is_check_total [of s "current_player s"]
    by (cases "is_check s (current_player s)") auto
  obtain ms where ms: "get_legal_moves s (current_player s) = Inr ms"
    using get_legal_moves_total [of s "current_player s"]
    by (cases "get_legal_moves s (current_player s)") auto
  show ?thesis
    by (cases chk) (simp_all add: is_checkmate_def is_stalemate_def chk ms)
qed

theorem checkmate_stalemate_witness:
  "is_checkmate back_rank_mate = Inr True \<and> is_stalemate back_rank_mate \<noteq> Inr True"
proof -
  have p: "current_player back_rank_mate = WHITE"
    by (simp add: back_rank_mate_def GameState_def)
  have c: "is_check back_rank_mate WHITE = Inr True"
    by code_simp
  have l: "get_legal_moves back_rank_mate WHITE = Inr []"
    by code_simp
  show ?thesis
    using checkmate_stalemate [of back_rank_mate] by (simp add: p c l)
qed

section \<open>The board after a move\<close>

lemma remove_set_commute:
  assumes "wf_board b" and "valid_square sq" and "valid_square sq'" and "sq \<noteq> sq'"
  shows "remove_piece (set_piece b sq p) sq' = set_piece (remove_piece b sq') sq p"
proof (rule board_eqI)
  show "wf_board (remove_piece (set_piece b sq p) sq')"
    using assms(1) by (simp add: wf_board_set_piece wf_board_remove_piece)
  show "wf_board (set_piece (remove_piece b sq') sq p)"
    using assms(1) by (simp add: wf_board_set_piece wf_board_remove_piece)
next
  fix x assume "valid_square x"
  with assms show "get_piece (remove_piece (set_piece b sq p) sq') x
      = get_piece (set_piece (remove_piece b sq') sq p) x"
    by (simp add: get_piece_set_piece get_piece_remove_piece wf_board_set_piece
        wf_board_remove_piece)
qed

text \<open>
  Castling on a board \<open>b\<close> from which the king has been lifted: the executor puts the king
  down and then moves the rook, the validator moves the rook and then puts the king down.
  The king's square is neither the rook's corner nor the square the rook goes to.
\<close>

lemma castling_board_commute:
  assumes "wf_board b" and "valid_square k" and "valid_square corner" and "valid_square next"
    and "k \<noteq> corner" and "k \<noteq> next"
  shows "set_piece (remove_piece (set_piece b k p) corner) next (get_piece (set_piece b k p) corner)
       = set_piece (set_piece (remove_piece b corner) next (get_piece b corner)) k p"
proof (rule board_eqI)
  show "wf_board (set_piece (remove_piece (set_piece b k p) corner) next
          (get_piece (set_piece b k p) corner))"
    using assms(1) by (simp add: wf_board_set_piece wf_board_remove_piece)
  show "wf_board (set_piece (set_piece (remove_piece b corner) next (get_piece b corner)) k p)"
    using assms(1) by (simp add: wf_board_set_piece wf_board_remove_piece)
next
  fix x assume "valid_square x"
  with assms show "get_piece (set_piece (remove_piece (set_piece b k p) corner) next
          (get_piece (set_piece b k p) corner)) x
      = get_piece (set_piece (set_piece (remove_piece b corner) next (get_piece b corner)) k p) x"
    by (simp add: get_piece_set_piece get_piece_remove_piece wf_board_set_piece
        wf_board_remove_piece)
qed

lemma execute_move_board_raw:
  assumes "execute_move hash s m = Inr s'"
  shows "board s' =
     board (let new_state = s\<lparr>board := remove_piece (board s) (from_square m)\<rparr>
            in if is_castling m then execute_castling new_state m
               else if is_en_passant m then execute_en_passant new_state m
               else execute_normal_move new_state m)"
  using assms
  by (auto simp: execute_move_def Let_def split: sum.splits option.splits if_splits)

text \<open>
  On a generated move the executor and the validator's simulation build the same board.
\<close>

lemma execute_move_board:
  assumes g: "m \<in> set (generate_pseudo_legal_moves s c)" and w: "wf_board (board s)"
    and e: "execute_move hash s m = Inr s'"
  shows "board s' = board (apply_move_temporarily s m)"
proof -
  note sh = generated_move_shape [OF g]
  let ?b = "remove_piece (board s) (from_square m)"
  have wb: "wf_board ?b" using w by (rule wf_board_remove_piece)
  from sh have vf: "valid_square (from_square m)" and vt: "valid_square (to_square m)"
    by simp_all
  consider (castle) "is_castling m" | (ep) "\<not> is_castling m" "is_en_passant m"
    | (normal) "\<not> is_castling m" "\<not> is_en_passant m"
    by blast
  then show ?thesis
  proof cases
    case normal
    then show ?thesis
      unfolding execute_move_board_raw [OF e]
      by (simp add: apply_move_temporarily_def execute_normal_move_def Let_def
          split: option.splits)
  next
    case ep
    with sh have promo: "promotion_piece m = None"
      and rk: "rank_of (to_square m) - rank_of (from_square m) = pawn_direction c"
      by simp_all
    let ?cap = "Sq (file_of (to_square m)) (rank_of (from_square m))"
    have vc: "valid_square ?cap"
      using vf vt by (simp add: valid_square_def)
    have ne: "to_square m \<noteq> ?cap"
      using rk by (cases "to_square m") (auto simp: pawn_direction_def split: if_splits)
    show ?thesis
      unfolding execute_move_board_raw [OF e]
      using ep promo remove_set_commute [OF wb vt vc ne]
      by (simp add: apply_move_temporarily_def execute_en_passant_def Let_def)
  next
    case castle
    let ?r = "if c = WHITE then 0 else 7 :: int"
    from castle sh have promo: "promotion_piece m = None" and nep: "\<not> is_en_passant m"
      and fr: "from_square m = Sq 4 ?r"
      and to: "to_square m = Sq 6 ?r \<or> to_square m = Sq 2 ?r"
      by simp_all
    have v: "valid_square (Sq 7 ?r)" "valid_square (Sq 5 ?r)" "valid_square (Sq 0 ?r)"
      "valid_square (Sq 3 ?r)"
      by (simp_all add: valid_square_def)
    from to show ?thesis
    proof
      assume t: "to_square m = Sq 6 ?r"
      have "valid_square (Sq 6 ?r)" by (simp add: valid_square_def)
      from castling_board_commute [OF wb this v(1) v(2), of "Some (piece m)"]
      show ?thesis
        unfolding execute_move_board_raw [OF e]
        using castle promo nep
        by (simp add: apply_move_temporarily_def execute_castling_def Let_def t fr)
    next
      assume t: "to_square m = Sq 2 ?r"
      have "valid_square (Sq 2 ?r)" by (simp add: valid_square_def)
      from castling_board_commute [OF wb this v(3) v(4), of "Some (piece m)"]
      show ?thesis
        unfolding execute_move_board_raw [OF e]
        using castle promo nep
        by (simp add: apply_move_temporarily_def execute_castling_def Let_def t fr)
    qed
  qed
qed

text \<open>
  C1: no legal move leaves the mover's king in check. For every state with a board of
  eight rows of eight squares, every colour and every move in the list that
  \<open>get_legal_moves\<close> returns, \<open>execute_move\<close> returns a state in which \<open>is_check\<close> for
  that colour is false.
\<close>

theorem legal_move_leaves_king_safe:
  assumes "wf_board (board s)" and "get_legal_moves s c = Inr ms" and "m \<in> set ms"
  shows "\<exists>s'. execute_move hash s m = Inr s' \<and> is_check s' c = Inr False"
proof -
  from get_legal_moves_result [OF assms(2), of m] assms(3)
  have g: "m \<in> set (generate_pseudo_legal_moves s c)" and l: "is_legal_move s m = Inr True"
    by simp_all
  from generated_move_shape [OF g] have c: "color (piece m) = c"
    by simp
  obtain s' where s': "execute_move hash s m = Inr s'"
    using calculate_en_passant_target_generated [OF g] execute_move_returns [of hash s m]
    by auto
  have "is_check s' c = is_check (apply_move_temporarily s m) c"
    by (rule is_check_board) (rule execute_move_board [OF g assms(1) s'])
  also have "\<dots> = Inr False"
    using is_legal_move_safe [OF l] by (simp add: would_leave_in_check_def c)
  finally show ?thesis
    using s' by simp
qed

theorem legal_move_leaves_king_safe_witness:
  "Move (Sq 4 1) (Sq 4 4) (Piece ROOK WHITE) None None False False
     \<in> set (projr (get_legal_moves pinned_rook WHITE))
   \<and> Move (Sq 4 1) (Sq 3 1) (Piece ROOK WHITE) None None False False
     \<notin> set (projr (get_legal_moves pinned_rook WHITE))
   \<and> map_sum id (\<lambda>s'. is_check s' WHITE)
       (execute_move (\<lambda>_. 0) pinned_rook
          (Move (Sq 4 1) (Sq 4 4) (Piece ROOK WHITE) None None False False))
     = Inr (Inr False)"
proof -
  let ?m = "Move (Sq 4 1) (Sq 4 4) (Piece ROOK WHITE) None None False False"
  let ?ms = "projr (get_legal_moves pinned_rook WHITE)"
  have w: "wf_board (board pinned_rook)"
    by (simp add: pinned_rook_def GameState_def board_of_def wf_board_set_piece wf_board_empty)
  have r: "get_legal_moves pinned_rook WHITE = Inr ?ms"
    using get_legal_moves_total [of pinned_rook WHITE]
    by (cases "get_legal_moves pinned_rook WHITE") auto
  have i: "?m \<in> set ?ms"
    by code_simp
  have o: "Move (Sq 4 1) (Sq 3 1) (Piece ROOK WHITE) None None False False \<notin> set ?ms"
    by code_simp
  from legal_move_leaves_king_safe [OF w r i, of "\<lambda>_. 0"] i o show ?thesis
    by auto
qed

section \<open>A missing king\<close>

lemma get_piece_apply_move:
  assumes "wf_board (board s)" and "valid_square (from_square m)" and "valid_square (to_square m)"
    and "\<not> is_castling m" and "valid_square sq"
  shows "get_piece (board (apply_move_temporarily s m)) sq =
     (if sq = to_square m
      then Some (case promotion_piece m of
                   Some promo \<Rightarrow> Piece promo (color (piece m))
                 | None \<Rightarrow> piece m)
      else if sq = from_square m
          \<or> is_en_passant m \<and> sq = Sq (file_of (to_square m)) (rank_of (from_square m))
      then None
      else get_piece (board s) sq)"
proof -
  have "valid_square (Sq (file_of (to_square m)) (rank_of (from_square m)))"
    using assms(2,3) by (simp add: valid_square_def)
  with assms show ?thesis
    by (simp add: apply_move_temporarily_def Let_def get_piece_set_piece get_piece_remove_piece
        wf_board_set_piece wf_board_remove_piece split: option.splits)
qed

lemma find_king_position_None:
  "find_king_position s c = None \<longleftrightarrow>
     (\<forall>sq. valid_square sq \<longrightarrow> get_piece (board s) sq \<noteq> Some (Piece KING c))"
proof -
  have "(case x of None \<Rightarrow> False | Some p \<Rightarrow> piece_type p = KING \<and> color p = c)
      \<longleftrightarrow> x = Some (Piece KING c)" for x
    by (cases x) (auto simp: piece.expand)
  then show ?thesis
    by (simp add: find_king_position_def find_None_iff set_all_squares)
qed

lemma is_check_no_king: "find_king_position s c = None \<Longrightarrow> is_check s c = Inr False"
  by (simp add: is_check_def)

text \<open>
  C4, as stated, fails on its last part: without a king of the colour nothing is filtered
  out. A lone white pawn on e2, with no white king on the board, has its two legal moves
  to e3 and e4.
\<close>

theorem missing_king_counterexample:
  "wf_board (board lone_pawn)
   \<and> find_king_position lone_pawn WHITE = None
   \<and> get_legal_moves lone_pawn WHITE =
       Inr [Move (Sq 4 1) (Sq 4 2) (Piece PAWN WHITE) None None False False,
            Move (Sq 4 1) (Sq 4 3) (Piece PAWN WHITE) None None False False]"
  by code_simp

text \<open>
  C4 (amended): for every state with a board of eight rows of eight squares on which the
  given colour has no king, the queries do not raise: \<open>is_check\<close> returns false, and
  \<open>get_legal_moves\<close> returns every pseudo-legal move of that colour, none being filtered
  out.
\<close>

theorem missing_king_queries:
  assumes "wf_board (board s)"
    and "\<forall>sq. valid_square sq \<longrightarrow> get_piece (board s) sq \<noteq> Some (Piece KING c)"
  shows "is_check s c = Inr False
     \<and> get_legal_moves s c = Inr (generate_pseudo_legal_moves s c)"
proof -
  have k: "find_king_position s c = None"
    using assms(2) by (simp add: find_king_position_None)
  have "is_legal_move s m = Inr True" if g: "m \<in> set (generate_pseudo_legal_moves s c)" for m
  proof -
    note sh = generated_move_shape [OF g]
    from sh have vf: "valid_square (from_square m)" and vt: "valid_square (to_square m)"
      and c: "color (piece m) = c"
      and p: "get_piece (board s) (from_square m) = Some (piece m)"
      and promo: "promotion_piece m \<in> {None, Some QUEEN, Some ROOK, Some BISHOP, Some KNIGHT}"
      by simp_all
    have pk: "piece m \<noteq> Piece KING c"
      using assms(2) vf p by auto
    have nc: "\<not> is_castling m"
    proof
      assume "is_castling m"
      with sh have "piece_type (piece m) = KING" by simp
      with c have "piece m = Piece KING c" by (simp add: piece.expand)
      with pk show False by simp
    qed
    have "get_piece (board (apply_move_temporarily s m)) sq \<noteq> Some (Piece KING c)"
      if "valid_square sq" for sq
      unfolding get_piece_apply_move [OF assms(1) vf vt nc that]
      using promo pk assms(2) that by (auto split: option.splits)
    then have "find_king_position (apply_move_temporarily s m) c = None"
      by (simp add: find_king_position_None)
    then have w: "would_leave_in_check s m = Inr False"
      by (simp add: would_leave_in_check_def c is_check_no_king)
    show ?thesis
    proof (cases "is_en_passant m")
      case True
      with sh have "en_passant_target s = Some (to_square m)" by simp
      with True nc w show ?thesis
        by (simp add: is_legal_move_def validate_en_passant_def)
    next
      case False
      with nc w show ?thesis
        by (simp add: is_legal_move_def)
    qed
  qed
  then have "get_legal_moves s c = Inr (generate_pseudo_legal_moves s c)"
    unfolding get_legal_moves_def by (rule filter_legal_moves_all)
  with k show ?thesis
    by (simp add: is_check_no_king)
qed

theorem missing_king_queries_witness:
  "is_check lone_pawn WHITE = Inr False
   \<and> get_legal_moves lone_pawn WHITE = Inr (generate_pseudo_legal_moves lone_pawn WHITE)
   \<and> generate_pseudo_legal_moves lone_pawn WHITE \<noteq> []"
proof -
  have w: "wf_board (board lone_pawn)"
    by (simp add: lone_pawn_def GameState_def board_of_def wf_board_set_piece wf_board_empty)
  have "find_king_position lone_pawn WHITE = None"
    by code_simp
  then have k: "\<forall>sq. valid_square sq \<longrightarrow> get_piece (board lone_pawn) sq \<noteq> Some (Piece KING WHITE)"
    by (simp add: find_king_position_None)
  have n: "generate_pseudo_legal_moves lone_pawn WHITE \<noteq> []"
    by code_simp
  from missing_king_queries [OF w k] n show ?thesis
    by simp
qed

section \<open>Castling\<close>

lemma concat_map_concat:
  "concat (map g (concat (map h xs))) = concat (map (\<lambda>x. concat (map g (h x))) xs)"
  by (induction xs) simp_all

lemma concat_map_single:
  assumes "distinct xs" and "x \<in> set xs" and "\<And>y. y \<in> set xs \<Longrightarrow> y \<noteq> x \<Longrightarrow> f y = []"
  shows "concat (map f xs) = f x"
  using assms
proof (induction xs)
  case Nil
  then show ?case by simp
next
  case (Cons a xs)
  show ?case
  proof (cases "a = x")
    case True
    with Cons.prems have "\<And>y. y \<in> set xs \<Longrightarrow> f y = []" by auto
    then have "concat (map f xs) = []" by simp
    with True show ?thesis by simp
  next
    case False
    with Cons have "concat (map f xs) = f x" and "f a = []" by auto
    then show ?thesis by simp
  qed
qed

text \<open>The generated moves, square by square.\<close>

lemma generate_pseudo_legal_moves_squares:
  "generate_pseudo_legal_moves s c =
     concat (map (\<lambda>sq. concat (map (\<lambda>(square, pc). generate_piece_moves s square)
                                  (pieces_on (board s) c sq))) all_squares)"
  by (simp add: generate_pseudo_legal_moves_def get_all_pieces_squares concat_map_concat)

lemma castling_moves_of_square:
  assumes "valid_square sq" and "sq \<noteq> Sq 4 (if c = WHITE then 0 else 7)"
  shows "filter is_castling (concat (map (\<lambda>(square, pc). generate_piece_moves s square)
                                      (pieces_on (board s) c sq))) = []"
proof (cases "get_piece (board s) sq")
  case None
  then show ?thesis by (simp add: pieces_on_def)
next
  case (Some p)
  have "\<not> is_castling m" if m: "m \<in> set (generate_piece_moves s sq)" and c: "color p = c" for m
  proof
    assume "is_castling m"
    with generate_piece_moves_shape [OF m assms(1)] Some
    have "sq = Sq 4 (if color p = WHITE then 0 else 7)" by auto
    with assms(2) c show False by simp
  qed
  then show ?thesis
    by (auto simp: pieces_on_def Some filter_empty_conv)
qed

lemma offset_moves_no_castling: "filter is_castling (offset_moves s sq pc offsets) = []"
  using offset_moves_shape [of _ s sq pc offsets] by (auto simp: filter_empty_conv)

lemma castling_moves_of_king:
  assumes r: "r = (if c = WHITE then 0 else 7)"
    and "get_piece (board s) (Sq 4 r) = Some (Piece KING c)"
    and "get_piece (board s) (Sq 0 r) = Some (Piece ROOK c)"
    and "get_piece (board s) (Sq 7 r) = Some (Piece ROOK c)"
    and "\<forall>f \<in> {1, 2, 3, 5, 6}. get_piece (board s) (Sq f r) = None"
    and "if c = WHITE
         then white_kingside (castling_rights s) \<and> white_queenside (castling_rights s)
         else black_kingside (castling_rights s) \<and> black_queenside (castling_rights s)"
  shows "filter is_castling (concat (map (\<lambda>(square, pc). generate_piece_moves s square)
                                      (pieces_on (board s) c (Sq 4 r)))) =
     [Move (Sq 4 r) (Sq 6 r) (Piece KING c) None None True False,
      Move (Sq 4 r) (Sq 2 r) (Piece KING c) None None True False]"
proof -
  have "generate_castling_moves s (Sq 4 r) (Piece KING c) =
     [Move (Sq 4 r) (Sq 6 r) (Piece KING c) None None True False,
      Move (Sq 4 r) (Sq 2 r) (Piece KING c) None None True False]"
    using assms by (cases c) (simp_all add: generate_castling_moves_def is_rook_of_def Let_def)
  then show ?thesis
    using assms(2)
    by (simp add: pieces_on_def generate_piece_moves_def generate_king_moves_def
        offset_moves_no_castling Move_def)
qed

lemma castling_moves_generated:
  assumes r: "r = (if c = WHITE then 0 else 7)"
    and "get_piece (board s) (Sq 4 r) = Some (Piece KING c)"
    and "get_piece (board s) (Sq 0 r) = Some (Piece ROOK c)"
    and "get_piece (board s) (Sq 7 r) = Some (Piece ROOK c)"
    and "\<forall>f \<in> {1, 2, 3, 5, 6}. get_piece (board s) (Sq f r) = None"
    and "if c = WHITE
         then white_kingside (castling_rights s) \<and> white_queenside (castling_rights s)
         else black_kingside (castling_rights s) \<and> black_queenside (castling_rights s)"
  shows "filter is_castling (generate_pseudo_legal_moves s c) =
     [Move (Sq 4 r) (Sq 6 r) (Piece KING c) None None True False,
      Move (Sq 4 r) (Sq 2 r) (Piece KING c) None None True False]"
proof -
  let ?f = "\<lambda>sq. filter is_castling (concat (map (\<lambda>(square, pc). generate_piece_moves s square)
                                      (pieces_on (board s) c sq)))"
  have k: "Sq 4 r \<in> set all_squares"
    by (simp add: set_all_squares valid_square_def r)
  have "filter is_castling (generate_pseudo_legal_moves s c) = concat (map ?f all_squares)"
    by (simp add: generate_pseudo_legal_moves_squares filter_concat comp_def)
  also have "\<dots> = ?f (Sq 4 r)"
  proof (rule concat_map_single [OF distinct_all_squares k])
    fix y assume "y \<in> set all_squares" and "y \<noteq> Sq 4 r"
    then show "?f y = []"
      using castling_moves_of_square [of y c s] by (simp add: set_all_squares r)
  qed
  also have "\<dots> = [Move (Sq 4 r) (Sq 6 r) (Piece KING c) None None True False,
      Move (Sq 4 r) (Sq 2 r) (Piece KING c) None None True False]"
    using assms by (rule castling_moves_of_king)
  finally show ?thesis .
qed

text \<open>The three tests of \<open>_validate_castling\<close> for a king on the e-file.\<close>

lemma validate_castling_iff:
  assumes "from_square m = Sq 4 r" and "0 \<le> r" and "r \<le> 7"
    and "to_square m = Sq 6 r \<or> to_square m = Sq 2 r"
  shows "validate_castling s m = Inr True \<longleftrightarrow>
     is_check s (color (piece m)) = Inr False
     \<and> is_square_attacked s (Sq (if to_square m = Sq 6 r then 5 else 3) r)
         (opposite (color (piece m))) = Inr False
     \<and> would_leave_in_check s m = Inr False"
  using assms(4)
proof
  assume "to_square m = Sq 6 r"
  then show ?thesis
    using assms(1-3)
    by (auto simp: validate_castling_def Let_def Square_def split: sum.splits bool.splits)
next
  assume "to_square m = Sq 2 r"
  then show ?thesis
    using assms(1-3)
    by (auto simp: validate_castling_def Let_def Square_def split: sum.splits bool.splits)
qed

text \<open>The board of the simulation of a castling move, square by square.\<close>

lemma get_piece_apply_castling:
  assumes w: "wf_board (board s)" and "is_castling m" and "\<not> is_en_passant m"
    and "promotion_piece m = None" and "from_square m = Sq 4 r" and "0 \<le> r" and "r \<le> 7"
    and "to_square m = Sq 6 r \<or> to_square m = Sq 2 r" and "valid_square sq"
  shows "get_piece (board (apply_move_temporarily s m)) sq =
     (if sq = to_square m then Some (piece m)
      else if sq = Sq (if to_square m = Sq 6 r then 5 else 3) r
      then get_piece (board s) (Sq (if to_square m = Sq 6 r then 7 else 0) r)
      else if sq = Sq 4 r \<or> sq = Sq (if to_square m = Sq 6 r then 7 else 0) r then None
      else get_piece (board s) sq)"
proof -
  have v: "valid_square (Sq 0 r)" "valid_square (Sq 2 r)" "valid_square (Sq 3 r)"
    "valid_square (Sq 4 r)" "valid_square (Sq 5 r)" "valid_square (Sq 6 r)" "valid_square (Sq 7 r)"
    using assms(6,7) by (simp_all add: valid_square_def)
  from assms(8) show ?thesis
  proof
    assume "to_square m = Sq 6 r"
    with assms(1-5,9) v show ?thesis
      by (simp add: apply_move_temporarily_def Let_def get_piece_set_piece
          get_piece_remove_piece wf_board_set_piece wf_board_remove_piece)
  next
    assume "to_square m = Sq 2 r"
    with assms(1-5,9) v show ?thesis
      by (simp add: apply_move_temporarily_def Let_def get_piece_set_piece
          get_piece_remove_piece wf_board_set_piece wf_board_remove_piece)
  qed
qed

text \<open>
  C3: castling. Let \<open>r\<close> be the home rank of the colour \<open>c\<close>. If the king of \<open>c\<close> stands
  on the e-file square of rank \<open>r\<close> and rooks of \<open>c\<close> on both corners of that rank, the
  squares between them are empty and \<open>c\<close> has both castling rights, then the generator
  produces exactly two moves flagged \<open>is_castling\<close> for \<open>c\<close>, the king's moves to the g-file
  and to the c-file. Every castling move \<open>m\<close> that the generator produces goes from the
  e-file to the g-file or the c-file of rank \<open>r\<close>; \<open>get_legal_moves\<close> returns a list, and
  \<open>m\<close> is in it exactly when \<open>c\<close> is not in check, the square the king passes over (on the
  f-file or the d-file) is not attacked by the other colour, and \<open>c\<close> is not in check on
  the simulated board. On a board of eight rows of eight squares the simulated board has
  the king on its destination, the rook of the corner on the square passed over, the
  king's square and the corner empty, and every other square as before.
\<close>

theorem castling_gating:
  assumes r: "r = (if c = WHITE then 0 else 7)"
  shows "(get_piece (board s) (Sq 4 r) = Some (Piece KING c)
          \<and> get_piece (board s) (Sq 0 r) = Some (Piece ROOK c)
          \<and> get_piece (board s) (Sq 7 r) = Some (Piece ROOK c)
          \<and> (\<forall>f \<in> {1, 2, 3, 5, 6}. get_piece (board s) (Sq f r) = None)
          \<and> (if c = WHITE
              then white_kingside (castling_rights s) \<and> white_queenside (castling_rights s)
              else black_kingside (castling_rights s) \<and> black_queenside (castling_rights s))
        \<longrightarrow> filter is_castling (generate_pseudo_legal_moves s c) =
              [Move (Sq 4 r) (Sq 6 r) (Piece KING c) None None True False,
               Move (Sq 4 r) (Sq 2 r) (Piece KING c) None None True False])
     \<and> (m \<in> set (generate_pseudo_legal_moves s c) \<and> is_castling m
        \<longrightarrow> from_square m = Sq 4 r \<and> (to_square m = Sq 6 r \<or> to_square m = Sq 2 r)
            \<and> get_piece (board s) (Sq 4 r) = Some (piece m)
            \<and> piece_type (piece m) = KING \<and> color (piece m) = c
            \<and> (\<exists>ms. get_legal_moves s c = Inr ms
                 \<and> (m \<in> set ms \<longleftrightarrow>
                      is_check s c = Inr False
                      \<and> is_square_attacked s (Sq (if to_square m = Sq 6 r then 5 else 3) r)
                          (opposite c) = Inr False
                      \<and> is_check (apply_move_temporarily s m) c = Inr False))
            \<and> (wf_board (board s) \<longrightarrow>
                 (\<forall>sq. valid_square sq \<longrightarrow>
                    get_piece (board (apply_move_temporarily s m)) sq =
                      (if sq = to_square m then Some (piece m)
                       else if sq = Sq (if to_square m = Sq 6 r then 5 else 3) r
                       then get_piece (board s) (Sq (if to_square m = Sq 6 r then 7 else 0) r)
                       else if sq = Sq 4 r \<or> sq = Sq (if to_square m = Sq 6 r then 7 else 0) r
                       then None
                       else get_piece (board s) sq))))"
proof (intro conjI impI)
  assume "get_piece (board s) (Sq 4 r) = Some (Piece KING c)
          \<and> get_piece (board s) (Sq 0 r) = Some (Piece ROOK c)
          \<and> get_piece (board s) (Sq 7 r) = Some (Piece ROOK c)
          \<and> (\<forall>f \<in> {1, 2, 3, 5, 6}. get_piece (board s) (Sq f r) = None)
          \<and> (if c = WHITE
              then white_kingside (castling_rights s) \<and> white_queenside (castling_rights s)
              else black_kingside (castling_rights s) \<and> black_queenside (castling_rights s))"
  then show "filter is_castling (generate_pseudo_legal_moves s c) =
              [Move (Sq 4 r) (Sq 6 r) (Piece KING c) None None True False,
               Move (Sq 4 r) (Sq 2 r) (Piece KING c) None None True False]"
    by (intro castling_moves_generated [OF r]) simp_all
next
  assume a: "m \<in> set (generate_pseudo_legal_moves s c) \<and> is_castling m"
  then have g: "m \<in> set (generate_pseudo_legal_moves s c)" and cm: "is_castling m"
    by simp_all
  note sh = generated_move_shape [OF g]
  from sh have p: "get_piece (board s) (from_square m) = Some (piece m)"
    and c: "color (piece m) = c"
    by simp_all
  from sh cm r
  have fr: "from_square m = Sq 4 r" and to: "to_square m = Sq 6 r \<or> to_square m = Sq 2 r"
    and k: "piece_type (piece m) = KING"
    and nep: "\<not> is_en_passant m" and promo: "promotion_piece m = None"
    by simp_all
  have r07: "0 \<le> r" "r \<le> 7" by (simp_all add: r)
  show "from_square m = Sq 4 r" by (rule fr)
  show "to_square m = Sq 6 r \<or> to_square m = Sq 2 r" by (rule to)
  show "get_piece (board s) (Sq 4 r) = Some (piece m)" using p fr by simp
  show "piece_type (piece m) = KING" by (rule k)
  show "color (piece m) = c" by (rule c)
  obtain ms where ms: "get_legal_moves s c = Inr ms"
    using get_legal_moves_total [of s c] by (cases "get_legal_moves s c") auto
  have "m \<in> set ms \<longleftrightarrow> validate_castling s m = Inr True"
    using get_legal_moves_result [OF ms, of m] g cm by (simp add: is_legal_move_def)
  also have "\<dots> \<longleftrightarrow> is_check s c = Inr False
        \<and> is_square_attacked s (Sq (if to_square m = Sq 6 r then 5 else 3) r) (opposite c)
            = Inr False
        \<and> is_check (apply_move_temporarily s m) c = Inr False"
    using validate_castling_iff [OF fr r07 to, of s] by (simp add: c would_leave_in_check_def)
  finally show "\<exists>ms. get_legal_moves s c = Inr ms
      \<and> (m \<in> set ms \<longleftrightarrow>
            is_check s c = Inr False
            \<and> is_square_attacked s (Sq (if to_square m = Sq 6 r then 5 else 3) r)
                (opposite c) = Inr False
            \<and> is_check (apply_move_temporarily s m) c = Inr False)"
    using ms by simp
  show "\<forall>sq. valid_square sq \<longrightarrow>
          get_piece (board (apply_move_temporarily s m)) sq =
            (if sq = to_square m then Some (piece m)
             else if sq = Sq (if to_square m = Sq 6 r then 5 else 3) r
             then get_piece (board s) (Sq (if to_square m = Sq 6 r then 7 else 0) r)
             else if sq = Sq 4 r \<or> sq = Sq (if to_square m = Sq 6 r then 7 else 0) r
             then None
             else get_piece (board s) sq)"
    if w: "wf_board (board s)"
    using get_piece_apply_castling [OF w cm nep promo fr r07 to] by blast
qed

theorem castling_gating_witness:
  "filter is_castling (generate_pseudo_legal_moves castling_position WHITE) =
     [Move (Sq 4 0) (Sq 6 0) (Piece KING WHITE) None None True False,
      Move (Sq 4 0) (Sq 2 0) (Piece KING WHITE) None None True False]
   \<and> Move (Sq 4 0) (Sq 2 0) (Piece KING WHITE) None None True False
       \<in> set (projr (get_legal_moves castling_position WHITE))
   \<and> Move (Sq 4 0) (Sq 6 0) (Piece KING WHITE) None None True False
       \<notin> set (projr (get_legal_moves castling_position WHITE))"
proof -
  let ?short = "Move (Sq 4 0) (Sq 6 0) (Piece KING WHITE) None None True False"
  let ?long = "Move (Sq 4 0) (Sq 2 0) (Piece KING WHITE) None None True False"
  have r: "(0::int) = (if WHITE = WHITE then 0 else 7)" by simp
  have pre: "get_piece (board castling_position) (Sq 4 0) = Some (Piece KING WHITE)
          \<and> get_piece (board castling_position) (Sq 0 0) = Some (Piece ROOK WHITE)
          \<and> get_piece (board castling_position) (Sq 7 0) = Some (Piece ROOK WHITE)
          \<and> (\<forall>f \<in> {1, 2, 3, 5, 6}. get_piece (board castling_position) (Sq f 0) = None)
          \<and> (if WHITE = WHITE
              then white_kingside (castling_rights castling_position)
                 \<and> white_queenside (castling_rights castling_position)
              else black_kingside (castling_rights castling_position)
                 \<and> black_queenside (castling_rights castling_position))"
    by code_simp
  have gs: "?short \<in> set (generate_pseudo_legal_moves castling_position WHITE) \<and> is_castling ?short"
    by code_simp
  have gl: "?long \<in> set (generate_pseudo_legal_moves castling_position WHITE) \<and> is_castling ?long"
    by code_simp
  have a: "is_check castling_position WHITE = Inr False"
    by code_simp
  have b3: "is_square_attacked castling_position (Sq 3 0) BLACK = Inr False"
    by code_simp
  have b5: "is_square_attacked castling_position (Sq 5 0) BLACK = Inr True"
    by code_simp
  have c: "is_check (apply_move_temporarily castling_position ?long) WHITE = Inr False"
    by code_simp
  have ts: "to_square ?short = Sq 6 0" and tl: "to_square ?long = Sq 2 0"
    by (simp_all add: Move_def)
  have o: "opposite WHITE = BLACK"
    by (simp add: opposite_def)
  from castling_gating [OF r, of castling_position ?long] pre
  have 1: "filter is_castling (generate_pseudo_legal_moves castling_position WHITE) = [?short, ?long]"
    by blast
  from castling_gating [OF r, of castling_position ?long] gl
  obtain ms where "get_legal_moves castling_position WHITE = Inr ms"
    and "?long \<in> set ms \<longleftrightarrow>
           is_check castling_position WHITE = Inr False
         \<and> is_square_attacked castling_position
             (Sq (if to_square ?long = Sq 6 0 then 5 else 3) 0) (opposite WHITE) = Inr False
         \<and> is_check (apply_move_temporarily castling_position ?long) WHITE = Inr False"
    by blast
  then have 2: "?long \<in> set (projr (get_legal_moves castling_position WHITE))"
    using a b3 c by (simp add: tl o)
  from castling_gating [OF r, of castling_position ?short] gs
  obtain ms' where "get_legal_moves castling_position WHITE = Inr ms'"
    and "?short \<in> set ms' \<longleftrightarrow>
           is_check castling_position WHITE = Inr False
         \<and> is_square_attacked castling_position
             (Sq (if to_square ?short = Sq 6 0 then 5 else 3) 0) (opposite WHITE) = Inr False
         \<and> is_check (apply_move_temporarily castling_position ?short) WHITE = Inr False"
    by blast
  then have 3: "?short \<notin> set (projr (get_legal_moves castling_position WHITE))"
    using b5 by (simp add: ts o)
  from 1 2 3 show ?thesis by simp
qed

end
